theory Spec2Isabelle
  imports Main "HOL-Library.Multiset" "HOL-Library.Word"
begin

section \<open>Augmented treap nodes (treap\_base.hpp, treap.h)\<close>

text \<open>
  A node owns its two children exclusively (there are no parent pointers and no sharing),
  so a tree of nodes reached through owning pointers is modelled as a tree value; the null
  pointer is \<open>Null\<close>.  A node carries its priority, its two children, the
  cached subtree size \<open>_size\<close> and its payload.  The priority type is a parameter:
  \<open>unsigned long long\<close> in treap\_base.hpp, \<open>unsigned int\<close> in treap.h.
  The size field is a \<open>size_t\<close> counting allocated nodes; it is modelled as a
  natural number.
\<close>

datatype ('p, 'v) node =
  Null
  | Node (get_priority: 'p) (get_left: "('p, 'v) node") (get_right: "('p, 'v) node")
      (size_field: nat) (get_value: 'v)

type_synonym 'v treap_node = "(64 word, 'v) node"
type_synonym 'k TreapNode = "(32 word, 'k) node"

datatype error = OutOfRange | Unreachable | ElementNotFound | NullDereference

text \<open>The idiom \<open>p != nullptr ? p->_size : 0\<close> of \<open>left_size\<close>,
  \<open>right_size\<close> and of the containers' \<open>size()\<close>.\<close>

fun size_of :: "('p, 'v) node \<Rightarrow> nat" where
  "size_of Null = 0"
| "size_of (Node p l r s v) = s"

fun left_size :: "('p, 'v) node \<Rightarrow> nat" where
  "left_size Null = 0"
| "left_size (Node p l r s v) = size_of l"

fun right_size :: "('p, 'v) node \<Rightarrow> nat" where
  "right_size Null = 0"
| "right_size (Node p l r s v) = size_of r"

text \<open>\<open>update\<close>, \<open>set_left\<close> and \<open>set_right\<close> are only ever called on
  a node that exists; on \<open>Null\<close> the model returns \<open>Null\<close>.\<close>

fun update :: "('p, 'v) node \<Rightarrow> ('p, 'v) node" where
  "update Null = Null"
| "update (Node p l r s v) =
     Node p l r (left_size (Node p l r s v) + right_size (Node p l r s v) + 1) v"

fun set_left :: "('p, 'v) node \<Rightarrow> ('p, 'v) node \<Rightarrow> ('p, 'v) node" where
  "set_left Null n = Null"
| "set_left (Node p l r s v) n = update (Node p n r s v)"

fun set_right :: "('p, 'v) node \<Rightarrow> ('p, 'v) node \<Rightarrow> ('p, 'v) node" where
  "set_right Null n = Null"
| "set_right (Node p l r s v) n = update (Node p l n s v)"

text \<open>\<open>construct_node\<close>: a fresh node with the drawn priority and no children
  (\<open>set_members(random_generator(), nullptr, nullptr)\<close>).  The random generator is
  made explicit: the drawn priority is an argument.\<close>

definition construct_node :: "'p \<Rightarrow> 'v \<Rightarrow> ('p, 'v) node" where
  "construct_node prio v = update (Node prio Null Null 1 v)"

subsection \<open>Abstraction: in-order traversal and the invariants\<close>

fun inorder_nodes :: "('p, 'v) node \<Rightarrow> ('p, 'v) node list" where
  "inorder_nodes Null = []"
| "inorder_nodes (Node p l r s v) = inorder_nodes l @ [Node p l r s v] @ inorder_nodes r"

fun inorder :: "('p, 'v) node \<Rightarrow> 'v list" where
  "inorder Null = []"
| "inorder (Node p l r s v) = inorder l @ [v] @ inorder r"

fun size_inv :: "('p, 'v) node \<Rightarrow> bool" where
  "size_inv Null = True"
| "size_inv (Node p l r s v) = (size_inv l \<and> size_inv r \<and> s = 1 + size_of l + size_of r)"

text \<open>The order property of the key-ordered trees: the keys of the in-order traversal
  increase strictly.  \<open>gk\<close> extracts the key of a payload.\<close>

definition ordered_keys :: "('v \<Rightarrow> 'k::linorder) \<Rightarrow> ('p, 'v) node \<Rightarrow> bool" where
  "ordered_keys gk t = sorted_wrt (<) (map gk (inorder t))"

subsection \<open>Order-statistic descent\<close>

fun node_of_order_loop :: "('p, 'v) node \<Rightarrow> nat \<Rightarrow> error + ('p, 'v) node" where
  "node_of_order_loop Null index = Inl Unreachable"
| "node_of_order_loop (Node p l r s v) index =
     (let left_count = left_size (Node p l r s v) in
      if index = left_count + 1 then Inr (Node p l r s v)
      else if index \<le> left_count then node_of_order_loop l index
      else node_of_order_loop r (index - (left_count + 1)))"

definition node_of_order :: "('p, 'v) node \<Rightarrow> nat \<Rightarrow> error + ('p, 'v) node" where
  "node_of_order root index =
     (if index = size_of root then Inr Null
      else if index > size_of root then Inl OutOfRange
      else node_of_order_loop root (index + 1))"

text \<open>\<open>Treap::nodeOfOrder\<close> of treap.h is the same code, with another message in the
  exception.\<close>

definition nodeOfOrder :: "('p, 'v) node \<Rightarrow> nat \<Rightarrow> error + ('p, 'v) node" where
  "nodeOfOrder root index =
     (if index = size_of root then Inr Null
      else if index > size_of root then Inl OutOfRange
      else node_of_order_loop root (index + 1))"

subsection \<open>Heap property\<close>

text \<open>The priority of every node is at least the priority of each child that exists.
  \<open>node_entries\<close> lists the nodes in order, each as its priority and payload.\<close>

fun prio_ok :: "'p::linorder \<Rightarrow> ('p, 'v) node \<Rightarrow> bool" where
  "prio_ok p Null = True"
| "prio_ok p (Node q l r s v) = (q \<le> p)"

fun heap :: "('p::linorder, 'v) node \<Rightarrow> bool" where
  "heap Null = True"
| "heap (Node p l r s v) = (heap l \<and> heap r \<and> prio_ok p l \<and> prio_ok p r)"



fun node_entries :: "('p, 'v) node \<Rightarrow> ('p \<times> 'v) list" where
  "node_entries Null = []"
| "node_entries (Node p l r s v) = node_entries l @ [(p, v)] @ node_entries r"

section \<open>Implicit treap (implicit\_treap.hpp)\<close>

text \<open>The container state is its root (\<open>root()\<close>, stored as the left child of the
  sentinel \<open>_end\<close>); \<open>size()\<close> is \<open>size_of\<close> of the root.\<close>

fun implicit_merge :: "('p::linorder, 'v) node \<Rightarrow> ('p, 'v) node \<Rightarrow> ('p, 'v) node" where
  "implicit_merge Null node2 = node2"
| "implicit_merge (Node p1 l1 r1 s1 v1) Null = Node p1 l1 r1 s1 v1"
| "implicit_merge (Node p1 l1 r1 s1 v1) (Node p2 l2 r2 s2 v2) =
     (if p1 > p2
      then set_right (Node p1 l1 r1 s1 v1) (implicit_merge r1 (Node p2 l2 r2 s2 v2))
      else set_left (Node p2 l2 r2 s2 v2) (implicit_merge (Node p1 l1 r1 s1 v1) l2))"

fun implicit_split :: "('p, 'v) node \<Rightarrow> nat \<Rightarrow> ('p, 'v) node \<times> ('p, 'v) node" where
  "implicit_split Null index = (Null, Null)"
| "implicit_split (Node p l r s v) index =
     (if index \<le> 0 then (Null, Node p l r s v)
      else if index \<ge> size_of (Node p l r s v) then (Node p l r s v, Null)
      else if left_size (Node p l r s v) < index then
        (let right_pair = implicit_split r (index - left_size (Node p l r s v) - 1)
         in (set_right (Node p l r s v) (fst right_pair), snd right_pair))
      else
        (let left_pair = implicit_split l index
         in (fst left_pair, set_left (Node p l r s v) (snd left_pair))))"

definition implicit_insert_node ::
  "('p::linorder, 'v) node \<Rightarrow> ('p, 'v) node \<Rightarrow> nat \<Rightarrow> ('p, 'v) node" where
  "implicit_insert_node root node index =
     (let (left, right) = implicit_split root index
      in implicit_merge (implicit_merge left node) right)"

text \<open>\<open>detach_node_with_index\<close> returns the new root and the detached node.\<close>

definition detach_node_with_index ::
  "('p::linorder, 'v) node \<Rightarrow> nat \<Rightarrow> ('p, 'v) node \<times> ('p, 'v) node" where
  "detach_node_with_index root index =
     (let (left, included_index) = implicit_split root index;
          (index_node, right) = implicit_split included_index 1
      in (implicit_merge left right, index_node))"

definition implicit_emplace ::
  "('p::linorder, 'v) node \<Rightarrow> nat \<Rightarrow> 'p \<Rightarrow> 'v \<Rightarrow> ('p, 'v) node" where
  "implicit_emplace root index prio v =
     (let index = (if index > size_of root then size_of root else index);
          holder = construct_node prio v
      in implicit_insert_node root holder index)"

definition implicit_insert ::
  "('p::linorder, 'v) node \<Rightarrow> 'v \<Rightarrow> nat \<Rightarrow> 'p \<Rightarrow> ('p, 'v) node" where
  "implicit_insert root v index prio = implicit_emplace root index prio v"

definition emplace_back :: "('p::linorder, 'v) node \<Rightarrow> 'p \<Rightarrow> 'v \<Rightarrow> ('p, 'v) node" where
  "emplace_back root prio v = implicit_emplace root (size_of root) prio v"

definition push_back :: "('p::linorder, 'v) node \<Rightarrow> 'v \<Rightarrow> 'p \<Rightarrow> ('p, 'v) node" where
  "push_back root v prio = emplace_back root prio v"

definition emplace_front :: "('p::linorder, 'v) node \<Rightarrow> 'p \<Rightarrow> 'v \<Rightarrow> ('p, 'v) node" where
  "emplace_front root prio v = implicit_emplace root 0 prio v"

definition push_front :: "('p::linorder, 'v) node \<Rightarrow> 'v \<Rightarrow> 'p \<Rightarrow> ('p, 'v) node" where
  "push_front root v prio = emplace_front root prio v"

definition implicit_erase :: "('p::linorder, 'v) node \<Rightarrow> nat \<Rightarrow> ('p, 'v) node" where
  "implicit_erase root index =
     (if index \<ge> size_of root then root else fst (detach_node_with_index root index))"

text \<open>\<open>pop_back\<close> calls \<open>erase(size() - 1)\<close>; the subtraction is on
  \<open>size_t\<close> and wraps to \<open>2^64 - 1\<close> on an empty container.\<close>

definition pop_back :: "('p::linorder, 'v) node \<Rightarrow> ('p, 'v) node" where
  "pop_back root = implicit_erase root ((size_of root + 2 ^ 64 - 1) mod 2 ^ 64)"

definition pop_front :: "('p::linorder, 'v) node \<Rightarrow> ('p, 'v) node" where
  "pop_front root = implicit_erase root 0"

text \<open>
  The copy constructor starts from the empty container and runs
  \<open>for (auto it = other.begin(); it != other.end(); ++it) emplace_back(*it)\<close>.  The
  iterator holds the index and the address of the payload of \<open>node_of_order(index)\<close>,
  null for the null node; \<open>begin()\<close> is at index 0, \<open>++\<close> calls
  \<open>node_of_order\<close> on the next index, and the loop ends when the address is null as in
  \<open>end()\<close>.  \<open>prio i\<close> is the priority the generator draws for the element at
  index \<open>i\<close>.
\<close>

function implicit_copy_loop ::
  "(nat \<Rightarrow> 'p) \<Rightarrow> ('q, 'v) node \<Rightarrow> nat \<Rightarrow> ('p::linorder, 'v) node
     \<Rightarrow> error + ('p, 'v) node" where
  "implicit_copy_loop prio other index this =
     (case node_of_order other index of
        Inl e \<Rightarrow> Inl e
      | Inr Null \<Rightarrow> Inr this
      | Inr (Node p l r s v) \<Rightarrow>
          implicit_copy_loop prio other (index + 1) (emplace_back this (prio index) v))"
  by pat_completeness auto
termination
  by (relation "measure (\<lambda>(prio, other, index, this). size_of other - index)")
     (auto simp: node_of_order_def split: if_splits)

definition implicit_copy ::
  "(nat \<Rightarrow> 'p) \<Rightarrow> ('q, 'v) node \<Rightarrow> error + ('p::linorder, 'v) node" where
  "implicit_copy prio other = implicit_copy_loop prio other 0 Null"

datatype ('p, 'v) implicit_op =
  I_insert 'v nat 'p | I_push_back 'v 'p | I_push_front 'v 'p
  | I_erase nat | I_pop_back | I_pop_front

fun implicit_apply :: "('p::linorder, 'v) node \<Rightarrow> ('p, 'v) implicit_op \<Rightarrow> ('p, 'v) node" where
  "implicit_apply root (I_insert v index prio) = implicit_insert root v index prio"
| "implicit_apply root (I_push_back v prio) = push_back root v prio"
| "implicit_apply root (I_push_front v prio) = push_front root v prio"
| "implicit_apply root (I_erase index) = implicit_erase root index"
| "implicit_apply root I_pop_back = pop_back root"
| "implicit_apply root I_pop_front = pop_front root"

definition implicit_run :: "('p::linorder, 'v) implicit_op list \<Rightarrow> ('p, 'v) node" where
  "implicit_run ops = foldl implicit_apply Null ops"

section \<open>Key-ordered treap (treap.hpp)\<close>

text \<open>
  The node class of the key-ordered treap and the comparator are template parameters.
  The model takes the key extraction \<open>Node::get_key\<close> as the parameter \<open>gk\<close>
  and the comparator as the strict order \<open><\<close> of a linearly ordered key type.
  The container state is its root (\<open>root()\<close>, \<open>set_root\<close>); the sentinel
  \<open>end_node()\<close> is \<open>Null\<close>.  The cached \<open>_begin\<close> pointer is not part of
  the model.  An iterator is built from a node pointer; it is modelled by the element it
  denotes, \<open>None\<close> for \<open>end()\<close>.
\<close>

type_synonym ('p, 'v) frames = "(('p, 'v) node \<times> bool) list"

fun iter_of :: "('p, 'v) node \<Rightarrow> 'v option" where
  "iter_of Null = None"
| "iter_of (Node p l r s v) = Some v"

text \<open>
  \<open>merge\<close> makes two passes, each a \<open>while\<close> loop, over the stacks \<open>nodes\<close>
  and \<open>compares\<close>, which are pushed and popped together: one list of pairs, top first.
  The first pass descends and pushes, the second pops and attaches.  The first step of the
  body of the first pass swaps the two nodes when the comparator puts the second before
  the first.
\<close>

definition key_ordered ::
  "('v \<Rightarrow> 'k::linorder) \<Rightarrow> ('p, 'v) node \<Rightarrow> ('p, 'v) node \<Rightarrow> ('p, 'v) node \<times> ('p, 'v) node" where
  "key_ordered gk node1 node2 =
     (if gk (get_value node2) < gk (get_value node1) then (node2, node1) else (node1, node2))"

function merge_descend ::
  "('v \<Rightarrow> 'k::linorder) \<Rightarrow> ('p::linorder, 'v) node \<Rightarrow> ('p, 'v) node \<Rightarrow> ('p, 'v) frames
     \<Rightarrow> ('p, 'v) node \<times> ('p, 'v) frames" where
  "merge_descend gk Null node2 stk = (node2, stk)"
| "merge_descend gk (Node p1 l1 r1 s1 v1) Null stk = (Node p1 l1 r1 s1 v1, stk)"
| "merge_descend gk (Node p1 l1 r1 s1 v1) (Node p2 l2 r2 s2 v2) stk =
     (case key_ordered gk (Node p1 l1 r1 s1 v1) (Node p2 l2 r2 s2 v2) of
        (node1, node2) \<Rightarrow>
          if get_priority node1 > get_priority node2
          then merge_descend gk (get_right node1) node2 ((node1, True) # stk)
          else merge_descend gk node1 (get_left node2) ((node2, False) # stk))"
  by pat_completeness auto
termination
  by (relation "measure (\<lambda>(gk, node1, node2, stk). size node1 + size node2)")
     (auto simp: key_ordered_def split: if_splits)

fun merge_rebuild :: "('p, 'v) node \<Rightarrow> ('p, 'v) frames \<Rightarrow> ('p, 'v) node" where
  "merge_rebuild child [] = child"
| "merge_rebuild child ((parent_node, compare) # stk) =
     (if compare then merge_rebuild (set_right parent_node child) stk
      else merge_rebuild (set_left parent_node child) stk)"

text \<open>The two passes in sequence, started with the stacks \<open>stk\<close>.\<close>

definition merge_passes ::
  "('v \<Rightarrow> 'k::linorder) \<Rightarrow> ('p::linorder, 'v) node \<Rightarrow> ('p, 'v) node \<Rightarrow> ('p, 'v) frames
     \<Rightarrow> ('p, 'v) node" where
  "merge_passes gk node1 node2 stk =
     (case merge_descend gk node1 node2 stk of (child, stk') \<Rightarrow> merge_rebuild child stk')"

definition treap_merge ::
  "('v \<Rightarrow> 'k::linorder) \<Rightarrow> ('p::linorder, 'v) node \<Rightarrow> ('p, 'v) node \<Rightarrow> ('p, 'v) node" where
  "treap_merge gk node1 node2 =
     (if node1 = Null \<and> node2 = Null then Null else merge_passes gk node1 node2 [])"

text \<open>\<open>split\<close>: the first loop pushes the path of the descent, the second one pops it
  and keeps the two results on top of the stack; they are the pair \<open>(first, second)\<close>
  of the second loop here.\<close>

fun split_descend ::
  "('v \<Rightarrow> 'k::linorder) \<Rightarrow> bool \<Rightarrow> ('p, 'v) node \<Rightarrow> 'k \<Rightarrow> ('p, 'v) frames \<Rightarrow> ('p, 'v) frames" where
  "split_descend gk key_included Null key stk = stk"
| "split_descend gk key_included (Node p l r s v) key stk =
     (let compare = (if key_included then \<not> key < gk v else gk v < key)
      in split_descend gk key_included (if compare then r else l) key
           ((Node p l r s v, compare) # stk))"

fun split_rebuild ::
  "('p, 'v) frames \<Rightarrow> ('p, 'v) node \<times> ('p, 'v) node \<Rightarrow> ('p, 'v) node \<times> ('p, 'v) node" where
  "split_rebuild [] (first, second) = (first, second)"
| "split_rebuild ((top_node, compare) # stk) (first, second) =
     (if compare then split_rebuild stk (set_right top_node first, second)
      else split_rebuild stk (first, set_left top_node second))"

definition treap_split ::
  "('v \<Rightarrow> 'k::linorder) \<Rightarrow> bool \<Rightarrow> ('p, 'v) node \<Rightarrow> 'k \<Rightarrow> ('p, 'v) node \<times> ('p, 'v) node" where
  "treap_split gk key_included node key =
     split_rebuild (split_descend gk key_included node key []) (Null, Null)"

fun lower_bound_loop ::
  "('v \<Rightarrow> 'k::linorder) \<Rightarrow> ('p, 'v) node \<Rightarrow> 'k \<Rightarrow> ('p, 'v) node \<Rightarrow> ('p, 'v) node" where
  "lower_bound_loop gk Null key result = result"
| "lower_bound_loop gk (Node p l r s v) key result =
     (if gk v < key then lower_bound_loop gk r key result
      else lower_bound_loop gk l key (Node p l r s v))"

definition lower_bound_node :: "('v \<Rightarrow> 'k::linorder) \<Rightarrow> ('p, 'v) node \<Rightarrow> 'k \<Rightarrow> ('p, 'v) node" where
  "lower_bound_node gk root key = lower_bound_loop gk root key Null"

fun upper_bound_loop ::
  "('v \<Rightarrow> 'k::linorder) \<Rightarrow> ('p, 'v) node \<Rightarrow> 'k \<Rightarrow> ('p, 'v) node \<Rightarrow> ('p, 'v) node" where
  "upper_bound_loop gk Null key result = result"
| "upper_bound_loop gk (Node p l r s v) key result =
     (if key < gk v then upper_bound_loop gk l key (Node p l r s v)
      else upper_bound_loop gk r key result)"

definition upper_bound_node :: "('v \<Rightarrow> 'k::linorder) \<Rightarrow> ('p, 'v) node \<Rightarrow> 'k \<Rightarrow> ('p, 'v) node" where
  "upper_bound_node gk root key = upper_bound_loop gk root key Null"

fun node_of_key :: "('v \<Rightarrow> 'k::linorder) \<Rightarrow> ('p, 'v) node \<Rightarrow> 'k \<Rightarrow> ('p, 'v) node" where
  "node_of_key gk Null key = Null"
| "node_of_key gk (Node p l r s v) key =
     (if key < gk v then node_of_key gk l key
      else if gk v < key then node_of_key gk r key
      else Node p l r s v)"

definition treap_contains :: "('v \<Rightarrow> 'k::linorder) \<Rightarrow> ('p, 'v) node \<Rightarrow> 'k \<Rightarrow> bool" where
  "treap_contains gk root key = (node_of_key gk root key \<noteq> Null)"

definition treap_find :: "('v \<Rightarrow> 'k::linorder) \<Rightarrow> ('p, 'v) node \<Rightarrow> 'k \<Rightarrow> 'v option" where
  "treap_find gk root key =
     (let node = lower_bound_node gk root key
      in if node \<noteq> Null \<and> \<not> key < gk (get_value node) then iter_of node else None)"

definition treap_lower_bound :: "('v \<Rightarrow> 'k::linorder) \<Rightarrow> ('p, 'v) node \<Rightarrow> 'k \<Rightarrow> 'v option" where
  "treap_lower_bound gk root key = iter_of (lower_bound_node gk root key)"

definition treap_upper_bound :: "('v \<Rightarrow> 'k::linorder) \<Rightarrow> ('p, 'v) node \<Rightarrow> 'k \<Rightarrow> 'v option" where
  "treap_upper_bound gk root key = iter_of (upper_bound_node gk root key)"

text \<open>\<open>insert_node\<close> returns the new root and the iterator to the inserted node.\<close>

definition insert_node ::
  "('v \<Rightarrow> 'k::linorder) \<Rightarrow> ('p::linorder, 'v) node \<Rightarrow> ('p, 'v) node
     \<Rightarrow> ('p, 'v) node \<times> 'v option" where
  "insert_node gk root node =
     (let (left, right) = treap_split gk False root (gk (get_value node));
          new_root = treap_merge gk (treap_merge gk left node) right
      in (new_root, iter_of node))"

text \<open>\<open>detach_node_key_interval\<close> returns the new root and the detached interval.\<close>

definition detach_node_key_interval ::
  "('v \<Rightarrow> 'k::linorder) \<Rightarrow> bool \<Rightarrow> ('p::linorder, 'v) node \<Rightarrow> 'k \<Rightarrow> 'k
     \<Rightarrow> ('p, 'v) node \<times> ('p, 'v) node" where
  "detach_node_key_interval gk end_included root begin_key end_key =
     (let (left, begin_included_tree) = treap_split gk False root begin_key;
          (interval, right) = treap_split gk end_included begin_included_tree end_key;
          new_root = treap_merge gk left right
      in (new_root, interval))"

definition detach_node_with_key ::
  "('v \<Rightarrow> 'k::linorder) \<Rightarrow> ('p::linorder, 'v) node \<Rightarrow> 'k \<Rightarrow> ('p, 'v) node \<times> ('p, 'v) node" where
  "detach_node_with_key gk root key = detach_node_key_interval gk True root key key"

text \<open>The inserting operations return the new root, the iterator and the flag.\<close>

definition emplace_with_key ::
  "('v \<Rightarrow> 'k::linorder) \<Rightarrow> ('p::linorder, 'v) node \<Rightarrow> 'k \<Rightarrow> 'p \<Rightarrow> 'v
     \<Rightarrow> ('p, 'v) node \<times> 'v option \<times> bool" where
  "emplace_with_key gk root key prio v =
     (let it = treap_find gk root key
      in if it \<noteq> None then (root, it, False)
         else let holder = construct_node prio v;
                  (new_root, it) = insert_node gk root holder
              in (new_root, it, True))"

definition treap_insert ::
  "('v \<Rightarrow> 'k::linorder) \<Rightarrow> ('p::linorder, 'v) node \<Rightarrow> 'v \<Rightarrow> 'p
     \<Rightarrow> ('p, 'v) node \<times> 'v option \<times> bool" where
  "treap_insert gk root v prio = emplace_with_key gk root (gk v) prio v"

definition treap_emplace ::
  "('v \<Rightarrow> 'k::linorder) \<Rightarrow> ('p::linorder, 'v) node \<Rightarrow> 'p \<Rightarrow> 'v
     \<Rightarrow> ('p, 'v) node \<times> 'v option \<times> bool" where
  "treap_emplace gk root prio v =
     (let holder = construct_node prio v;
          it = treap_find gk root (gk (get_value holder))
      in if it \<noteq> None then (root, it, False)
         else let (new_root, it) = insert_node gk root holder
              in (new_root, it, True))"

text \<open>The erasing operations return the new root and the iterator computed before the
  detachment; the detached subtree is destroyed.\<close>

definition erase_key_interval ::
  "('v \<Rightarrow> 'k::linorder) \<Rightarrow> ('p::linorder, 'v) node \<Rightarrow> 'k \<Rightarrow> 'k \<Rightarrow> ('p, 'v) node \<times> 'v option" where
  "erase_key_interval gk root begin_key end_key =
     (let it = treap_lower_bound gk root end_key
      in (fst (detach_node_key_interval gk False root begin_key end_key), it))"

definition erase_key_interval_with_end ::
  "('v \<Rightarrow> 'k::linorder) \<Rightarrow> ('p::linorder, 'v) node \<Rightarrow> 'k \<Rightarrow> 'k \<Rightarrow> ('p, 'v) node \<times> 'v option" where
  "erase_key_interval_with_end gk root begin_key end_key =
     (let it = treap_upper_bound gk root end_key
      in (fst (detach_node_key_interval gk True root begin_key end_key), it))"

definition erase_key ::
  "('v \<Rightarrow> 'k::linorder) \<Rightarrow> ('p::linorder, 'v) node \<Rightarrow> 'k \<Rightarrow> ('p, 'v) node \<times> 'v option" where
  "erase_key gk root key =
     (let it = treap_upper_bound gk root key
      in (fst (detach_node_with_key gk root key), it))"

text \<open>\<open>key_of_order\<close> tests the index and reads the key of the node of that rank,
  which it gets from the descent \<open>node_of_order\<close> started at the root.\<close>

definition key_of_order :: "('v \<Rightarrow> 'k::linorder) \<Rightarrow> ('p, 'v) node \<Rightarrow> nat \<Rightarrow> error + 'k" where
  "key_of_order gk root index =
     (if index \<ge> size_of root then Inl OutOfRange
      else case node_of_order root index of
             Inl e \<Rightarrow> Inl e
           | Inr Null \<Rightarrow> Inl NullDereference
           | Inr (Node p l r s v) \<Rightarrow> Inr (gk v))"

text \<open>Modelled from the spec: the node method \<open>order()\<close>, which \<open>order_of_key\<close> calls on
  the node that \<open>node_of_key\<close> returns, is not among the sources.  For a node of the
  tree it is
  the 0-based in-order rank that the spec gives \<open>order_of_key\<close> for a key that is
  present: the number of elements whose key is below the key of the node.  For the end
  node it is \<open>size()\<close>, which is what the comment of \<open>order_of_key\<close> in treap.hpp gives
  for a key that is not in the tree (``proper index, when the tree has the key, size()
  otherwise'').\<close>

definition order_of_node ::
  "('v \<Rightarrow> 'k::linorder) \<Rightarrow> ('p, 'v) node \<Rightarrow> ('p, 'v) node \<Rightarrow> nat" where
  "order_of_node gk root node =
     (case node of
        Null \<Rightarrow> size_of root
      | Node p l r s v \<Rightarrow> length (filter (\<lambda>x. gk x < gk v) (inorder root)))"

text \<open>\<open>order_of_key\<close> returns a \<open>size_type\<close> and throws nothing itself: its result is
  always a value.\<close>

definition order_of_key :: "('v \<Rightarrow> 'k::linorder) \<Rightarrow> ('p, 'v) node \<Rightarrow> 'k \<Rightarrow> error + nat" where
  "order_of_key gk root key = Inr (order_of_node gk root (node_of_key gk root key))"

datatype ('p, 'k, 'v) treap_op =
  K_insert 'v 'p | K_emplace 'p 'v | K_erase_key 'k
  | K_erase_key_interval 'k 'k | K_erase_key_interval_with_end 'k 'k

fun treap_apply ::
  "('v \<Rightarrow> 'k::linorder) \<Rightarrow> ('p::linorder, 'v) node \<Rightarrow> ('p, 'k, 'v) treap_op \<Rightarrow> ('p, 'v) node" where
  "treap_apply gk root (K_insert v prio) = fst (treap_insert gk root v prio)"
| "treap_apply gk root (K_emplace prio v) = fst (treap_emplace gk root prio v)"
| "treap_apply gk root (K_erase_key key) = fst (erase_key gk root key)"
| "treap_apply gk root (K_erase_key_interval b e) = fst (erase_key_interval gk root b e)"
| "treap_apply gk root (K_erase_key_interval_with_end b e) =
     fst (erase_key_interval_with_end gk root b e)"

definition treap_run ::
  "('v \<Rightarrow> 'k::linorder) \<Rightarrow> ('p::linorder, 'k, 'v) treap_op list \<Rightarrow> ('p, 'v) node" where
  "treap_run gk ops = foldl (treap_apply gk) Null ops"

section \<open>The first key-ordered treap (treap.h)\<close>

text \<open>
  \<open>TreapNode<Key>\<close> stores the key as its payload and an \<open>unsigned int\<close>
  priority; \<open>setLeft\<close>, \<open>setRight\<close>, \<open>leftSize\<close>, \<open>rightSize\<close> and
  \<open>update\<close> are the code of treap\_base.hpp under other names and share its model.
  Keys are compared with the operators of \<open>Key\<close>, a linear order here.  The state of
  a \<open>Treap\<close> is its \<open>_root\<close>.
\<close>

definition TreapNode_new :: "'k \<Rightarrow> 'p \<Rightarrow> ('p, 'k) node" where
  "TreapNode_new key prio = update (Node prio Null Null 1 key)"

definition TreapNode_ordered ::
  "('p, 'k::linorder) node \<Rightarrow> ('p, 'k) node \<Rightarrow> ('p, 'k) node \<times> ('p, 'k) node" where
  "TreapNode_ordered node1 node2 =
     (if get_value node1 > get_value node2 then (node2, node1) else (node1, node2))"

function TreapNode_merge ::
  "('p::linorder, 'k::linorder) node \<Rightarrow> ('p, 'k) node \<Rightarrow> ('p, 'k) node" where
  "TreapNode_merge Null node2 = node2"
| "TreapNode_merge (Node p1 l1 r1 s1 k1) Null = Node p1 l1 r1 s1 k1"
| "TreapNode_merge (Node p1 l1 r1 s1 k1) (Node p2 l2 r2 s2 k2) =
     (case TreapNode_ordered (Node p1 l1 r1 s1 k1) (Node p2 l2 r2 s2 k2) of
        (node1, node2) \<Rightarrow>
          if get_priority node1 > get_priority node2
          then set_right node1 (TreapNode_merge (get_right node1) node2)
          else set_left node2 (TreapNode_merge node1 (get_left node2)))"
  by pat_completeness auto
termination
  by (relation "measure (\<lambda>(node1, node2). size node1 + size node2)")
     (auto simp: TreapNode_ordered_def split: if_splits)

fun TreapNode_split ::
  "('p, 'k::linorder) node \<Rightarrow> 'k \<Rightarrow> ('p, 'k) node \<times> ('p, 'k) node" where
  "TreapNode_split Null val = (Null, Null)"
| "TreapNode_split (Node p l r s k) val =
     (if k < val then
        (let pair_right = TreapNode_split r val
         in (set_right (Node p l r s k) (fst pair_right), snd pair_right))
      else
        (let pair_left = TreapNode_split l val
         in (fst pair_left, set_left (Node p l r s k) (snd pair_left))))"

fun nodeOfKey :: "('p, 'k::linorder) node \<Rightarrow> 'k \<Rightarrow> ('p, 'k) node" where
  "nodeOfKey Null val = Null"
| "nodeOfKey (Node p l r s k) val =
     (if val \<noteq> k then (if val < k then nodeOfKey l val else nodeOfKey r val)
      else Node p l r s k)"

definition Treap_contains :: "('p, 'k::linorder) node \<Rightarrow> 'k \<Rightarrow> bool" where
  "Treap_contains root val = (nodeOfKey root val \<noteq> Null)"

text \<open>\<open>Treap::insert\<close> returns nothing; the model returns the new root.  The priority
  drawn from the generator is an argument.\<close>

definition Treap_insert ::
  "('p::linorder, 'k::linorder) node \<Rightarrow> 'k \<Rightarrow> 'p \<Rightarrow> ('p, 'k) node" where
  "Treap_insert root val prio =
     (if Treap_contains root val then root
      else let my_node = TreapNode_new val prio
           in if root = Null then my_node
              else let p = TreapNode_split root val
                   in TreapNode_merge (snd p) (TreapNode_merge (fst p) my_node))"

text \<open>
  \<open>Treap::remove\<close> computes \<open>value + 1\<close>, so its keys are numbers; the model takes
  \<open>Key = int\<close>, the 32-bit integers from \<open>-2^31\<close> to \<open>2^31 - 1\<close>, as integers.
  For the largest key \<open>value + 1\<close> overflows; the addition of the machine wraps to the
  smallest key, and so does \<open>key_plus_one\<close>.
\<close>

definition key_plus_one :: "int \<Rightarrow> int" where
  "key_plus_one val = (if val = 2 ^ 31 - 1 then - (2 ^ 31) else val + 1)"

text \<open>
  Both splits cut the tree before anything is tested, and \<open>_root\<close> keeps pointing to
  the old root node.  That node is the root of the first part when its key is below
  \<open>value\<close>; otherwise it is the root of the second part of the first split, and the
  second split leaves it at the root of the middle part when its key is below the pivot
  \<open>value + 1\<close> and at the root of the last part otherwise.  \<open>root_node_tree\<close> is the
  tree hanging from it.
\<close>

definition root_node_tree ::
  "('p, int) node \<Rightarrow> int \<Rightarrow> ('p, int) node \<times> ('p, int) node
     \<Rightarrow> ('p, int) node \<times> ('p, int) node \<Rightarrow> ('p, int) node" where
  "root_node_tree root val first_split_pair second_split_pair =
     (case root of
        Null \<Rightarrow> Null
      | Node p l r s k \<Rightarrow>
          if k < val then fst first_split_pair
          else if k < key_plus_one val then fst second_split_pair
          else snd second_split_pair)"

text \<open>
  When the middle part is not empty its root node is deleted, and \<open>empty()\<close> then reads
  the size field behind \<open>_root\<close>.  When the old root is the deleted node, this reads
  freed memory: the value read is not determined by the program, and the model takes it
  as the argument \<open>freed_size\<close>, so that a statement about every \<open>freed_size\<close> covers
  whatever the read returns.
\<close>

definition root_deleted :: "('p, int) node \<Rightarrow> int \<Rightarrow> bool" where
  "root_deleted root val =
     (case root of
        Null \<Rightarrow> False
      | Node p l r s k \<Rightarrow> \<not> k < val \<and> k < key_plus_one val)"

definition size_read_by_empty ::
  "('p, int) node \<Rightarrow> int \<Rightarrow> ('p, int) node \<times> ('p, int) node
     \<Rightarrow> ('p, int) node \<times> ('p, int) node \<Rightarrow> nat \<Rightarrow> nat" where
  "size_read_by_empty root val first_split_pair second_split_pair freed_size =
     (if root_deleted root val then freed_size
      else size_of (root_node_tree root val first_split_pair second_split_pair))"

text \<open>
  \<open>Treap::remove\<close> throws when the middle part is empty; the tree hanging from the old
  root node is then the state the exception leaves behind.  Otherwise the root becomes
  null when \<open>empty()\<close> holds and the merge of the two outer parts when it does not.  The
  model returns the exception, if any, and the root after the call.
\<close>

definition Treap_remove ::
  "('p::linorder, int) node \<Rightarrow> int \<Rightarrow> nat \<Rightarrow> error option \<times> ('p, int) node" where
  "Treap_remove root val freed_size =
     (let first_split_pair = TreapNode_split root val;
          second_split_pair = TreapNode_split (snd first_split_pair) (key_plus_one val)
      in if fst second_split_pair = Null
         then (Some ElementNotFound, root_node_tree root val first_split_pair second_split_pair)
         else if size_read_by_empty root val first_split_pair second_split_pair freed_size = 0
         then (None, Null)
         else (None, TreapNode_merge (fst first_split_pair) (snd second_split_pair)))"

text \<open>\<open>keyOfOrder\<close> reads the key of the node \<open>nodeOfOrder\<close> returns, which is the
  null pointer for \<open>index = size()\<close>.\<close>

definition keyOfOrder :: "('p, 'k) node \<Rightarrow> nat \<Rightarrow> error + 'k" where
  "keyOfOrder root index =
     (case nodeOfOrder root index of
        Inl e \<Rightarrow> Inl e
      | Inr Null \<Rightarrow> Inl NullDereference
      | Inr (Node p l r s k) \<Rightarrow> Inr k)"

fun orderOfKey_from :: "'k::linorder \<Rightarrow> ('p, 'k) node \<Rightarrow> error + nat" where
  "orderOfKey_from key Null = Inl ElementNotFound"
| "orderOfKey_from key (Node p l r s k) =
     (if key = k then Inr (1 + left_size (Node p l r s k))
      else if key < k then orderOfKey_from key l
      else (case orderOfKey_from key r of
              Inl e \<Rightarrow> Inl e
            | Inr n \<Rightarrow> Inr (1 + left_size (Node p l r s k) + n)))"

definition orderOfKey :: "('p, 'k::linorder) node \<Rightarrow> 'k \<Rightarrow> error + nat" where
  "orderOfKey root key =
     (case orderOfKey_from key root of Inl e \<Rightarrow> Inl e | Inr n \<Rightarrow> Inr (n - 1))"

text \<open>\<open>TreapNode::copy\<close> is a member function: called through a null pointer it reads
  the key of a node that does not exist.  It guards the calls on its children; the copy
  constructor \<open>Treap(const Treap&)\<close> calls it on \<open>other._root\<close> without a guard, and
  copy assignment goes through the copy constructor and \<open>swap\<close>.\<close>

fun TreapNode_copy :: "('p, 'k) node \<Rightarrow> error + ('p, 'k) node" where
  "TreapNode_copy Null = Inl NullDereference"
| "TreapNode_copy (Node p l r s k) =
     (case (if l \<noteq> Null
            then (case TreapNode_copy l of
                    Inl e \<Rightarrow> Inl e
                  | Inr c \<Rightarrow> Inr (set_left (TreapNode_new k p) c))
            else Inr (TreapNode_new k p)) of
        Inl e \<Rightarrow> Inl e
      | Inr root \<Rightarrow>
          (if r \<noteq> Null
           then (case TreapNode_copy r of
                   Inl e \<Rightarrow> Inl e
                 | Inr c \<Rightarrow> Inr (set_right root c))
           else Inr root))"

definition Treap_copy :: "('p, 'k) node \<Rightarrow> error + ('p, 'k) node" where
  "Treap_copy other = TreapNode_copy other"

text \<open>Copy assignment returns the new state of \<open>*this\<close>; \<open>same\<close> says that
  \<open>this == &other\<close>.\<close>

definition Treap_copy_assign ::
  "bool \<Rightarrow> ('p, 'k) node \<Rightarrow> ('p, 'k) node \<Rightarrow> error + ('p, 'k) node" where
  "Treap_copy_assign same this other = (if \<not> same then Treap_copy other else Inr this)"

text \<open>An operation of a \<open>Treap\<close> carries what the program does not determine: the
  priority an insertion draws, and the value a removal reads from the freed root.\<close>

datatype 'p Treap_op = L_insert int 'p | L_remove int nat

fun Treap_apply :: "('p::linorder, int) node \<Rightarrow> 'p Treap_op \<Rightarrow> ('p, int) node" where
  "Treap_apply root (L_insert val prio) = Treap_insert root val prio"
| "Treap_apply root (L_remove val freed_size) = snd (Treap_remove root val freed_size)"

definition Treap_run :: "('p::linorder) Treap_op list \<Rightarrow> ('p, int) node" where
  "Treap_run ops = foldl Treap_apply Null ops"

section \<open>Verification\<close>

subsection \<open>Sizes and order statistics\<close>

lemma size_of_inorder: "size_inv t \<Longrightarrow> size_of t = length (inorder t)"
  by (induction t) auto

lemma length_inorder_nodes: "length (inorder_nodes t) = length (inorder t)"
  by (induction t) auto

lemma node_of_order_loop_nth:
  "size_inv t \<Longrightarrow> i < size_of t \<Longrightarrow>
   node_of_order_loop t (i + 1) = Inr (inorder_nodes t ! i)"
proof (induction t arbitrary: i)
  case Null
  then show ?case by simp
next
  case (Node p l r s v)
  have sl: "size_of l = length (inorder_nodes l)"
    using Node.prems(1) by (simp add: size_of_inorder length_inorder_nodes)
  have sr: "size_of r = length (inorder_nodes r)"
    using Node.prems(1) by (simp add: size_of_inorder length_inorder_nodes)
  consider (lt) "i < size_of l" | (eq) "i = size_of l" | (gt) "i > size_of l"
    by arith
  then show ?case
  proof cases
    case lt
    then show ?thesis
      using Node.IH(1)[of i] Node.prems(1) sl by (simp add: nth_append)
  next
    case eq
    then show ?thesis using sl by (simp add: nth_append)
  next
    case gt
    then have "i - (size_of l + 1) < size_of r"
      using Node.prems by simp
    then have "node_of_order_loop r (i - (size_of l + 1) + 1)
                 = Inr (inorder_nodes r ! (i - (size_of l + 1)))"
      using Node.IH(2) Node.prems(1) by simp
    moreover have "i - (size_of l + 1) + 1 = i - size_of l"
      using gt by simp
    ultimately show ?thesis
      using gt sl by (simp add: nth_append nth_Cons')
  qed
qed


lemma inorder_nodes_not_Null: "n \<in> set (inorder_nodes t) \<Longrightarrow> n \<noteq> Null"
  by (induction t) auto

lemma map_get_value_inorder_nodes: "map get_value (inorder_nodes t) = inorder t"
  by (induction t) auto

lemma node_of_order_eq:
  assumes "size_inv t"
  shows "node_of_order t i =
           (if i < size_of t then Inr (inorder_nodes t ! i)
            else if i = size_of t then Inr Null else Inl OutOfRange)"
  using assms node_of_order_loop_nth[of t i] by (auto simp: node_of_order_def)

subsection \<open>Replacing a child\<close>

lemma size_inv_set_left:
  "size_inv n \<Longrightarrow> size_inv c \<Longrightarrow> size_inv (set_left n c)"
  by (cases n) auto

lemma size_inv_set_right:
  "size_inv n \<Longrightarrow> size_inv c \<Longrightarrow> size_inv (set_right n c)"
  by (cases n) auto

lemma size_inv_construct_node: "size_inv (construct_node prio v)"
  by (simp add: construct_node_def)

lemma inorder_construct_node: "inorder (construct_node prio v) = [v]"
  by (simp add: construct_node_def)

subsection \<open>Merge and split of the implicit treap\<close>

lemma implicit_merge_inorder:
  "inorder (implicit_merge a b) = inorder a @ inorder b"
  by (induction a b rule: implicit_merge.induct) auto

lemma implicit_merge_entries:
  "node_entries (implicit_merge a b) = node_entries a @ node_entries b"
  by (induction a b rule: implicit_merge.induct) auto

lemma implicit_merge_size_inv:
  "size_inv a \<Longrightarrow> size_inv b \<Longrightarrow> size_inv (implicit_merge a b)"
  by (induction a b rule: implicit_merge.induct) auto

lemma implicit_merge_prio_ok:
  "prio_ok q a \<Longrightarrow> prio_ok q b \<Longrightarrow> prio_ok q (implicit_merge a b)"
  by (induction a b rule: implicit_merge.induct) auto

lemma implicit_merge_heap:
  "heap a \<Longrightarrow> heap b \<Longrightarrow> heap (implicit_merge a b)"
proof (induction a b rule: implicit_merge.induct)
  case (3 p1 l1 r1 s1 v1 p2 l2 r2 s2 v2)
  show ?case
  proof (cases "p1 > p2")
    case True
    have "prio_ok p1 (implicit_merge r1 (Node p2 l2 r2 s2 v2))"
      using True "3.prems" by (intro implicit_merge_prio_ok) auto
    then show ?thesis using True 3 by auto
  next
    case False
    have "prio_ok p2 (implicit_merge (Node p1 l1 r1 s1 v1) l2)"
      using False "3.prems" by (intro implicit_merge_prio_ok) auto
    then show ?thesis using False 3 by auto
  qed
qed auto

lemma implicit_split_size_inv:
  "size_inv t \<Longrightarrow> size_inv (fst (implicit_split t i)) \<and> size_inv (snd (implicit_split t i))"
  by (induction t i rule: implicit_split.induct) (auto simp: Let_def)

lemma implicit_split_inorder:
  "size_inv t \<Longrightarrow>
   inorder (fst (implicit_split t i)) = take i (inorder t) \<and>
   inorder (snd (implicit_split t i)) = drop i (inorder t)"
proof (induction t i rule: implicit_split.induct)
  case (1 index)
  then show ?case by simp
next
  case (2 p l r s v index)
  have sl: "size_of l = length (inorder l)" and sr: "size_of r = length (inorder r)"
    using "2.prems" by (simp_all add: size_of_inorder)
  have s: "s = 1 + length (inorder l) + length (inorder r)"
    using "2.prems" sl sr by simp
  show ?case
  proof (cases "index \<le> 0 \<or> index \<ge> s")
    case True
    then show ?thesis using s by auto
  next
    case False
    show ?thesis
    proof (cases "size_of l < index")
      case True
      then show ?thesis
        using False 2 sl s by (auto simp: Let_def take_Cons' drop_Cons')
    next
      case b: False
      then show ?thesis
        using False 2 sl s by (auto simp: Let_def)
    qed
  qed
qed


subsection \<open>The merge of the key-ordered treap\<close>

text \<open>The two passes of \<open>treap::merge\<close> compute the recursive merge: the stack only
  postpones the \<open>set_right\<close> and \<open>set_left\<close> calls.\<close>

lemma merge_passes_Null1: "merge_passes gk Null b stk = merge_rebuild b stk"
  by (simp add: merge_passes_def)

lemma merge_passes_Null2: "merge_passes gk a Null stk = merge_rebuild a stk"
  by (cases a) (simp_all add: merge_passes_def)

lemma merge_passes_Node:
  "merge_passes gk (Node p1 l1 r1 s1 v1) (Node p2 l2 r2 s2 v2) stk =
     (case key_ordered gk (Node p1 l1 r1 s1 v1) (Node p2 l2 r2 s2 v2) of
        (node1, node2) \<Rightarrow>
          if get_priority node1 > get_priority node2
          then merge_passes gk (get_right node1) node2 ((node1, True) # stk)
          else merge_passes gk node1 (get_left node2) ((node2, False) # stk))"
  by (simp add: merge_passes_def split: prod.splits)

lemma merge_passes_stack:
  fixes a :: "('p::linorder, 'v) node" and gk :: "'v \<Rightarrow> 'k::linorder"
  shows "merge_passes gk a b stk = merge_rebuild (merge_passes gk a b []) stk"
proof (induction gk a b "s0 :: ('p, 'v) frames" arbitrary: stk rule: merge_descend.induct)
  case (1 gk node2 s0)
  then show ?case by (simp add: merge_passes_Null1)
next
  case (2 gk p1 l1 r1 s1 v1 s0)
  then show ?case by (simp add: merge_passes_Null2)
next
  case (3 gk p1 l1 r1 s1 v1 p2 l2 r2 s2 v2 s0)
  obtain n1 n2 where ko: "key_ordered gk (Node p1 l1 r1 s1 v1) (Node p2 l2 r2 s2 v2) = (n1, n2)"
    by (cases "key_ordered gk (Node p1 l1 r1 s1 v1) (Node p2 l2 r2 s2 v2)")
  show ?case
  proof (cases "get_priority n1 > get_priority n2")
    case True
    have a: "merge_passes gk (get_right n1) n2 ((n1, True) # stk)
               = merge_rebuild (set_right n1 (merge_passes gk (get_right n1) n2 [])) stk"
      using "3.IH"(1)[OF ko[symmetric] True, of "(n1, True) # stk"] by simp
    have b: "merge_passes gk (get_right n1) n2 [(n1, True)]
               = set_right n1 (merge_passes gk (get_right n1) n2 [])"
      using "3.IH"(1)[OF ko[symmetric] True, of "[(n1, True)]"] by simp
    show ?thesis
      using True a b by (simp add: merge_passes_Node ko)
  next
    case False
    have a: "merge_passes gk n1 (get_left n2) ((n2, False) # stk)
               = merge_rebuild (set_left n2 (merge_passes gk n1 (get_left n2) [])) stk"
      using "3.IH"(2)[OF ko[symmetric] False, of "(n2, False) # stk"] by simp
    have b: "merge_passes gk n1 (get_left n2) [(n2, False)]
               = set_left n2 (merge_passes gk n1 (get_left n2) [])"
      using "3.IH"(2)[OF ko[symmetric] False, of "[(n2, False)]"] by simp
    show ?thesis
      using False a b by (simp add: merge_passes_Node ko)
  qed
qed

lemma treap_merge_Null1: "treap_merge gk Null b = b"
  by (simp add: treap_merge_def merge_passes_Null1)

lemma treap_merge_Null2: "treap_merge gk a Null = a"
  by (simp add: treap_merge_def merge_passes_Null2)

lemma key_ordered_cases:
  "key_ordered gk a b = (a, b) \<or> key_ordered gk a b = (b, a)"
  by (simp add: key_ordered_def)

lemma treap_merge_Node:
  "treap_merge gk (Node p1 l1 r1 s1 v1) (Node p2 l2 r2 s2 v2) =
     (case key_ordered gk (Node p1 l1 r1 s1 v1) (Node p2 l2 r2 s2 v2) of
        (node1, node2) \<Rightarrow>
          if get_priority node1 > get_priority node2
          then set_right node1 (treap_merge gk (get_right node1) node2)
          else set_left node2 (treap_merge gk node1 (get_left node2)))"
proof -
  obtain n1 n2 where ko: "key_ordered gk (Node p1 l1 r1 s1 v1) (Node p2 l2 r2 s2 v2) = (n1, n2)"
    by (cases "key_ordered gk (Node p1 l1 r1 s1 v1) (Node p2 l2 r2 s2 v2)")
  have nn: "n1 \<noteq> Null" "n2 \<noteq> Null"
    using ko key_ordered_cases[of gk "Node p1 l1 r1 s1 v1" "Node p2 l2 r2 s2 v2"] by auto
  have r: "merge_passes gk (get_right n1) n2 [(n1, True)]
             = set_right n1 (merge_passes gk (get_right n1) n2 [])"
    using merge_passes_stack[of gk "get_right n1" n2 "[(n1, True)]"] by simp
  have l: "merge_passes gk n1 (get_left n2) [(n2, False)]
             = set_left n2 (merge_passes gk n1 (get_left n2) [])"
    using merge_passes_stack[of gk n1 "get_left n2" "[(n2, False)]"] by simp
  show ?thesis
    using nn r l by (simp add: treap_merge_def merge_passes_Node ko)
qed

lemma treap_merge_eq_TreapNode_merge:
  "treap_merge (\<lambda>k. k) a b = TreapNode_merge a b"
proof (induction a b rule: TreapNode_merge.induct)
  case (3 p1 l1 r1 s1 k1 p2 l2 r2 s2 k2)
  have ko: "key_ordered (\<lambda>k. k) (Node p1 l1 r1 s1 k1) (Node p2 l2 r2 s2 k2)
              = TreapNode_ordered (Node p1 l1 r1 s1 k1) (Node p2 l2 r2 s2 k2)"
    by (simp add: key_ordered_def TreapNode_ordered_def)
  obtain n1 n2 where o: "TreapNode_ordered (Node p1 l1 r1 s1 k1) (Node p2 l2 r2 s2 k2) = (n1, n2)"
    by (cases "TreapNode_ordered (Node p1 l1 r1 s1 k1) (Node p2 l2 r2 s2 k2)")
  show ?case
    using "3.IH"(1)[OF o[symmetric]] "3.IH"(2)[OF o[symmetric]]
    by (simp add: treap_merge_Node ko o)
qed (simp_all add: treap_merge_Null1 treap_merge_Null2)

lemma key_ordered_size:
  "key_ordered gk a b = (n1, n2) \<Longrightarrow> a \<noteq> Null \<Longrightarrow> b \<noteq> Null \<Longrightarrow> n1 \<noteq> Null \<and> n2 \<noteq> Null"
  by (auto simp: key_ordered_def split: if_splits)

lemma treap_merge_size_inv:
  fixes a :: "('p::linorder, 'v) node" and gk :: "'v \<Rightarrow> 'k::linorder"
  shows "size_inv a \<Longrightarrow> size_inv b \<Longrightarrow> size_inv (treap_merge gk a b)"
proof (induction gk a b "s0 :: ('p, 'v) frames" rule: merge_descend.induct)
  case (1 gk node2 s0)
  then show ?case by (simp add: treap_merge_Null1)
next
  case (2 gk p1 l1 r1 s1 v1 s0)
  then show ?case by (simp add: treap_merge_Null2)
next
  case (3 gk p1 l1 r1 s1 v1 p2 l2 r2 s2 v2 s0)
  obtain n1 n2 where ko: "key_ordered gk (Node p1 l1 r1 s1 v1) (Node p2 l2 r2 s2 v2) = (n1, n2)"
    by (cases "key_ordered gk (Node p1 l1 r1 s1 v1) (Node p2 l2 r2 s2 v2)")
  have inv: "size_inv n1" "size_inv n2"
    using ko "3.prems" by (auto simp: key_ordered_def split: if_splits)
  have nn: "n1 \<noteq> Null" "n2 \<noteq> Null"
    using key_ordered_size[OF ko] by simp_all
  have sub: "size_inv (get_right n1)" "size_inv (get_left n2)"
    using inv nn by (cases n1, simp_all, cases n2, simp_all)
  show ?case
  proof (cases "get_priority n1 > get_priority n2")
    case True
    then show ?thesis
      using "3.IH"(1)[OF ko[symmetric] True] inv sub
      by (simp add: treap_merge_Node ko size_inv_set_right)
  next
    case False
    then show ?thesis
      using "3.IH"(2)[OF ko[symmetric] False] inv sub
      by (simp add: treap_merge_Node ko size_inv_set_left)
  qed
qed

lemma treap_merge_prio_ok:
  fixes a :: "('p::linorder, 'v) node" and gk :: "'v \<Rightarrow> 'k::linorder"
  assumes "prio_ok q a" and "prio_ok q b"
  shows "prio_ok q (treap_merge gk a b)"
proof (cases a)
  case Null
  then show ?thesis using assms by (simp add: treap_merge_Null1)
next
  case na: (Node p1 l1 r1 s1 v1)
  show ?thesis
  proof (cases b)
    case Null
    then show ?thesis using assms by (simp add: treap_merge_Null2)
  next
    case nb: (Node p2 l2 r2 s2 v2)
    show ?thesis
      using assms unfolding na nb
      by (auto simp: treap_merge_Node key_ordered_def)
  qed
qed

lemma heap_set_right:
  "heap n \<Longrightarrow> heap c \<Longrightarrow> n \<noteq> Null \<Longrightarrow> prio_ok (get_priority n) c \<Longrightarrow> heap (set_right n c)"
  by (cases n) auto

lemma heap_set_left:
  "heap n \<Longrightarrow> heap c \<Longrightarrow> n \<noteq> Null \<Longrightarrow> prio_ok (get_priority n) c \<Longrightarrow> heap (set_left n c)"
  by (cases n) auto

lemma prio_ok_less: "n \<noteq> Null \<Longrightarrow> get_priority n \<le> q \<Longrightarrow> prio_ok q n"
  by (cases n) auto

lemma heap_children:
  "heap n \<Longrightarrow> n \<noteq> Null \<Longrightarrow>
   heap (get_left n) \<and> heap (get_right n) \<and>
   prio_ok (get_priority n) (get_left n) \<and> prio_ok (get_priority n) (get_right n)"
  by (cases n) auto

lemma treap_merge_heap:
  fixes a :: "('p::linorder, 'v) node" and gk :: "'v \<Rightarrow> 'k::linorder"
  shows "heap a \<Longrightarrow> heap b \<Longrightarrow> heap (treap_merge gk a b)"
proof (induction gk a b "s0 :: ('p, 'v) frames" rule: merge_descend.induct)
  case (1 gk node2 s0)
  then show ?case by (simp add: treap_merge_Null1)
next
  case (2 gk p1 l1 r1 s1 v1 s0)
  then show ?case by (simp add: treap_merge_Null2)
next
  case (3 gk p1 l1 r1 s1 v1 p2 l2 r2 s2 v2 s0)
  obtain n1 n2 where ko: "key_ordered gk (Node p1 l1 r1 s1 v1) (Node p2 l2 r2 s2 v2) = (n1, n2)"
    by (cases "key_ordered gk (Node p1 l1 r1 s1 v1) (Node p2 l2 r2 s2 v2)")
  have nn: "n1 \<noteq> Null" "n2 \<noteq> Null"
    using key_ordered_size[OF ko] by simp_all
  have hp: "heap n1" "heap n2"
    using ko "3.prems" by (auto simp: key_ordered_def split: if_splits)
  show ?case
  proof (cases "get_priority n1 > get_priority n2")
    case True
    have "heap (treap_merge gk (get_right n1) n2)"
      using "3.IH"(1)[OF ko[symmetric] True] heap_children[OF hp(1) nn(1)] hp(2) by simp
    moreover have "prio_ok (get_priority n1) (treap_merge gk (get_right n1) n2)"
      using heap_children[OF hp(1) nn(1)] prio_ok_less[OF nn(2), of "get_priority n1"] True
      by (intro treap_merge_prio_ok) auto
    ultimately show ?thesis
      using True hp nn by (simp add: treap_merge_Node ko heap_set_right)
  next
    case False
    have "heap (treap_merge gk n1 (get_left n2))"
      using "3.IH"(2)[OF ko[symmetric] False] heap_children[OF hp(2) nn(2)] hp(1) by simp
    moreover have "prio_ok (get_priority n2) (treap_merge gk n1 (get_left n2))"
      using heap_children[OF hp(2) nn(2)] prio_ok_less[OF nn(1), of "get_priority n2"] False
      by (intro treap_merge_prio_ok) auto
    ultimately show ?thesis
      using False hp nn by (simp add: treap_merge_Node ko heap_set_left)
  qed
qed

lemma treap_merge_entries:
  fixes a :: "('p::linorder, 'v) node" and gk :: "'v \<Rightarrow> 'k::linorder"
  shows "\<forall>x \<in> set (inorder a). \<forall>y \<in> set (inorder b). gk x < gk y \<Longrightarrow>
         node_entries (treap_merge gk a b) = node_entries a @ node_entries b"
proof (induction gk a b "s0 :: ('p, 'v) frames" rule: merge_descend.induct)
  case (1 gk node2 s0)
  then show ?case by (simp add: treap_merge_Null1)
next
  case (2 gk p1 l1 r1 s1 v1 s0)
  then show ?case by (simp add: treap_merge_Null2)
next
  case (3 gk p1 l1 r1 s1 v1 p2 l2 r2 s2 v2 s0)
  have lt: "gk v1 < gk v2" using "3.prems" by simp
  then have ko: "key_ordered gk (Node p1 l1 r1 s1 v1) (Node p2 l2 r2 s2 v2)
                   = (Node p1 l1 r1 s1 v1, Node p2 l2 r2 s2 v2)"
    by (auto simp: key_ordered_def)
  show ?case
  proof (cases "p1 > p2")
    case True
    have pre: "\<forall>x \<in> set (inorder r1). \<forall>y \<in> set (inorder (Node p2 l2 r2 s2 v2)). gk x < gk y"
      using "3.prems" by auto
    have "node_entries (treap_merge gk r1 (Node p2 l2 r2 s2 v2))
            = node_entries r1 @ node_entries (Node p2 l2 r2 s2 v2)"
      using "3.IH"(1)[OF ko[symmetric]] True pre by simp
    then show ?thesis
      using True by (simp add: treap_merge_Node ko)
  next
    case False
    have pre: "\<forall>x \<in> set (inorder (Node p1 l1 r1 s1 v1)). \<forall>y \<in> set (inorder l2). gk x < gk y"
      using "3.prems" by auto
    have "node_entries (treap_merge gk (Node p1 l1 r1 s1 v1) l2)
            = node_entries (Node p1 l1 r1 s1 v1) @ node_entries l2"
      using "3.IH"(2)[OF ko[symmetric]] False pre by simp
    then show ?thesis
      using False by (simp add: treap_merge_Node ko)
  qed
qed

lemma map_snd_node_entries: "map snd (node_entries t) = inorder t"
  by (induction t) auto

lemma treap_merge_inorder:
  fixes a :: "('p::linorder, 'v) node" and gk :: "'v \<Rightarrow> 'k::linorder"
  shows "\<forall>x \<in> set (inorder a). \<forall>y \<in> set (inorder b). gk x < gk y \<Longrightarrow>
         inorder (treap_merge gk a b) = inorder a @ inorder b"
proof -
  assume "\<forall>x \<in> set (inorder a). \<forall>y \<in> set (inorder b). gk x < gk y"
  then have "map snd (node_entries (treap_merge gk a b))
               = map snd (node_entries a @ node_entries b)"
    by (simp only: treap_merge_entries)
  then show ?thesis
    by (simp add: map_snd_node_entries)
qed

subsection \<open>The order-statistic descent finds the node of a rank\<close>

lemma nodeOfOrder_eq_node_of_order: "nodeOfOrder root index = node_of_order root index"
  by (simp add: nodeOfOrder_def node_of_order_def)

lemma inorder_nodes_nth_not_Null:
  "index < length (inorder_nodes root) \<Longrightarrow> inorder_nodes root ! index \<noteq> Null"
  using inorder_nodes_not_Null[of "inorder_nodes root ! index" root] by simp

lemma size_of_inorder_nodes: "size_inv t \<Longrightarrow> size_of t = length (inorder_nodes t)"
  by (simp add: size_of_inorder length_inorder_nodes)


text \<open>
  C4.  Let the tree of a container satisfy the size invariant.  Then
  \<open>node_of_order(index)\<close> (and \<open>nodeOfOrder\<close> of treap.h) returns the node at in-order
  position \<open>index\<close> when \<open>index < size\<close>, the null pointer when \<open>index = size\<close>, and
  raises the out-of-range error when \<open>index > size\<close>.  The node at position \<open>index\<close> is
  the entry \<open>index\<close> of the in-order list of the nodes, which has \<open>size\<close> entries; it
  is a node, and its payload is the element \<open>index\<close> of the sequence.  The function is
  \<open>const\<close>: it takes the tree and returns no new state, so the container is unchanged.
\<close>

theorem node_of_order_spec:
  assumes "size_inv root"
  shows "node_of_order root index =
           (if index < size_of root then Inr (inorder_nodes root ! index)
            else if index = size_of root then Inr Null else Inl OutOfRange)
         \<and> nodeOfOrder root index = node_of_order root index
         \<and> length (inorder_nodes root) = size_of root
         \<and> (if index < size_of root
             then inorder_nodes root ! index \<noteq> Null
                  \<and> get_value (inorder_nodes root ! index) = inorder root ! index
             else True)"
proof -
  have len: "length (inorder_nodes root) = size_of root"
    using assms by (simp add: size_of_inorder_nodes)
  have "get_value (inorder_nodes root ! index) = inorder root ! index" if "index < size_of root"
    using that len nth_map[of index "inorder_nodes root" get_value]
    by (simp add: map_get_value_inorder_nodes)
  then show ?thesis
    using assms len inorder_nodes_nth_not_Null[of index root]
    by (simp add: node_of_order_eq nodeOfOrder_eq_node_of_order)
qed

theorem node_of_order_spec_witness:
  "size_inv (Node (5 :: 64 word) (Node 3 Null Null 1 ''a'') (Node 2 Null Null 1 ''c'') 3 ''b'')
   \<and> node_of_order (Node (5 :: 64 word) (Node 3 Null Null 1 ''a'') (Node 2 Null Null 1 ''c'') 3 ''b'') 0
       = Inr (Node 3 Null Null 1 ''a'')
   \<and> node_of_order (Node (5 :: 64 word) (Node 3 Null Null 1 ''a'') (Node 2 Null Null 1 ''c'') 3 ''b'') 1
       = Inr (Node 5 (Node 3 Null Null 1 ''a'') (Node 2 Null Null 1 ''c'') 3 ''b'')
   \<and> node_of_order (Node (5 :: 64 word) (Node 3 Null Null 1 ''a'') (Node 2 Null Null 1 ''c'') 3 ''b'') 3
       = Inr Null
   \<and> node_of_order (Node (5 :: 64 word) (Node 3 Null Null 1 ''a'') (Node 2 Null Null 1 ''c'') 3 ''b'') 4
       = Inl OutOfRange"
proof -
  let ?t = "Node (5 :: 64 word) (Node 3 Null Null 1 ''a'') (Node 2 Null Null 1 ''c'') 3 ''b''"
  have inv: "size_inv ?t" by simp
  show ?thesis
    using inv node_of_order_spec[OF inv, of 0] node_of_order_spec[OF inv, of 1]
      node_of_order_spec[OF inv, of 3] node_of_order_spec[OF inv, of 4]
    by simp
qed

text \<open>
  C10.  On a tree that satisfies the size invariant and for \<open>index < size\<close>, the descent
  loop of \<open>node_of_order\<close> (\<open>nodeOfOrder\<close>) ends by returning a node: the result is a
  node of the tree, never the \<open>Unreachable code\<close> error that follows the loop.
\<close>

theorem node_of_order_returns_node:
  assumes "size_inv root" and "index < size_of root"
  shows "(\<exists>n. n \<noteq> Null \<and> node_of_order_loop root (index + 1) = Inr n
              \<and> node_of_order root index = Inr n \<and> nodeOfOrder root index = Inr n)
         \<and> node_of_order_loop root (index + 1) \<noteq> Inl Unreachable
         \<and> node_of_order root index \<noteq> Inl Unreachable
         \<and> nodeOfOrder root index \<noteq> Inl Unreachable"
proof -
  have l: "node_of_order_loop root (index + 1) = Inr (inorder_nodes root ! index)"
    using assms by (rule node_of_order_loop_nth)
  have n: "node_of_order root index = Inr (inorder_nodes root ! index)"
    using assms by (simp add: node_of_order_eq)
  have "inorder_nodes root ! index \<noteq> Null"
    using assms by (simp add: inorder_nodes_nth_not_Null size_of_inorder_nodes)
  then show ?thesis
    using l n by (simp add: nodeOfOrder_eq_node_of_order)
qed

theorem node_of_order_returns_node_witness:
  "size_inv (Node (5 :: 64 word) (Node 3 Null Null 1 ''a'') (Node 2 Null Null 1 ''c'') 3 ''b'')
   \<and> (2 :: nat) < size_of (Node (5 :: 64 word) (Node 3 Null Null 1 ''a'') (Node 2 Null Null 1 ''c'') 3 ''b'')
   \<and> node_of_order_loop (Node (5 :: 64 word) (Node 3 Null Null 1 ''a'') (Node 2 Null Null 1 ''c'') 3 ''b'') (2 + 1)
       = Inr (Node 2 Null Null 1 ''c'')"
proof -
  let ?t = "Node (5 :: 64 word) (Node 3 Null Null 1 ''a'') (Node 2 Null Null 1 ''c'') 3 ''b''"
  have inv: "size_inv ?t" by simp
  have lt: "(2 :: nat) < size_of ?t" by simp
  show ?thesis
    using inv lt node_of_order_returns_node[OF inv lt] by simp
qed

subsection \<open>The split of the key-ordered treap\<close>

lemma split_descend_stack:
  "split_rebuild (split_descend gk ki t key stk) (Null, Null)
     = split_rebuild stk (treap_split gk ki t key)"
proof (induction t arbitrary: stk)
  case Null
  then show ?case by (simp add: treap_split_def)
next
  case (Node p l r s v)
  let ?n = "Node p l r s v"
  obtain fr sr where r: "split_rebuild (split_descend gk ki r key []) (Null, Null) = (fr, sr)"
    by (cases "split_rebuild (split_descend gk ki r key []) (Null, Null)")
  obtain fl sl where l: "split_rebuild (split_descend gk ki l key []) (Null, Null) = (fl, sl)"
    by (cases "split_rebuild (split_descend gk ki l key []) (Null, Null)")
  show ?case
    using Node.IH(2)[of "(?n, True) # stk"] Node.IH(2)[of "[(?n, True)]"]
      Node.IH(1)[of "(?n, False) # stk"] Node.IH(1)[of "[(?n, False)]"] r l
    by (cases ki; cases "key < gk v"; cases "gk v < key") (simp_all add: treap_split_def)
qed

lemma treap_split_Null: "treap_split gk ki Null key = (Null, Null)"
  by (simp add: treap_split_def)

lemma treap_split_Node:
  "treap_split gk ki (Node p l r s v) key =
     (if (if ki then \<not> key < gk v else gk v < key)
      then (set_right (Node p l r s v) (fst (treap_split gk ki r key)),
            snd (treap_split gk ki r key))
      else (fst (treap_split gk ki l key),
            set_left (Node p l r s v) (snd (treap_split gk ki l key))))"
proof -
  let ?n = "Node p l r s v"
  obtain fr sr where r: "treap_split gk ki r key = (fr, sr)"
    by (cases "treap_split gk ki r key")
  obtain fl sl where l: "treap_split gk ki l key = (fl, sl)"
    by (cases "treap_split gk ki l key")
  have "treap_split gk ki ?n key =
          (if (if ki then \<not> key < gk v else gk v < key)
           then split_rebuild [(?n, True)] (treap_split gk ki r key)
           else split_rebuild [(?n, False)] (treap_split gk ki l key))"
    using split_descend_stack[of gk ki r key "[(?n, True)]"]
      split_descend_stack[of gk ki l key "[(?n, False)]"]
    by (cases ki; cases "key < gk v"; cases "gk v < key") (simp_all add: treap_split_def)
  then show ?thesis
    using r l by (cases ki) simp_all
qed

lemma TreapNode_split_eq_treap_split:
  "TreapNode_split t val = treap_split (\<lambda>k. k) False t val"
  by (induction t) (simp_all add: treap_split_Null treap_split_Node Let_def)

lemma treap_split_size_inv:
  "size_inv t \<Longrightarrow>
   size_inv (fst (treap_split gk ki t key)) \<and> size_inv (snd (treap_split gk ki t key))"
  by (induction t) (simp_all add: treap_split_Null treap_split_Node)

lemma treap_split_inorder_append:
  "inorder (fst (treap_split gk ki t key)) @ inorder (snd (treap_split gk ki t key)) = inorder t"
  by (induction t) (simp_all add: treap_split_Null treap_split_Node)

text \<open>The side of the pivot an element falls on.\<close>

lemma ordered_keys_Node:
  "ordered_keys gk (Node p l r s v) =
     (ordered_keys gk l \<and> ordered_keys gk r
      \<and> (\<forall>x \<in> set (inorder l). gk x < gk v) \<and> (\<forall>y \<in> set (inorder r). gk v < gk y)
      \<and> (\<forall>x \<in> set (inorder l). \<forall>y \<in> set (inorder r). gk x < gk y))"
  by (auto simp: ordered_keys_def sorted_wrt_append)

lemma ordered_keys_Null: "ordered_keys gk Null"
  by (simp add: ordered_keys_def)

lemma treap_split_fst_keys:
  "ordered_keys gk t \<Longrightarrow> x \<in> set (inorder (fst (treap_split gk ki t key))) \<Longrightarrow>
   (if ki then \<not> key < gk x else gk x < key)"
  by (induction t)
     (fastforce simp: treap_split_Null treap_split_Node ordered_keys_Node split: if_splits)+

lemma treap_split_snd_keys:
  "ordered_keys gk t \<Longrightarrow> x \<in> set (inorder (snd (treap_split gk ki t key))) \<Longrightarrow>
   \<not> (if ki then \<not> key < gk x else gk x < key)"
  by (induction t)
     (fastforce simp: treap_split_Null treap_split_Node ordered_keys_Node split: if_splits)+

subsection \<open>Searching in an ordered tree\<close>

lemma ordered_keys_sorted_wrt:
  "ordered_keys gk t = sorted_wrt (\<lambda>x y. gk x < gk y) (inorder t)"
  by (simp add: ordered_keys_def sorted_wrt_map)

lemma iter_of_None: "iter_of n = None \<longleftrightarrow> n = Null"
  by (cases n) auto

lemma iter_of_Some: "iter_of n = Some x \<longleftrightarrow> n \<noteq> Null \<and> get_value n = x"
  by (cases n) auto

lemma filter_ge_first:
  fixes gk :: "'v \<Rightarrow> 'k::linorder"
  shows "sorted_wrt (\<lambda>x y. gk x < gk y) xs \<Longrightarrow> v \<in> set xs \<Longrightarrow>
   \<exists>rest. filter (\<lambda>x. \<not> gk x < gk v) xs = v # rest"
  by (induction xs) auto

lemma filter_all_less:
  "\<forall>x \<in> set xs. gk x < (key :: 'k :: linorder) \<Longrightarrow> filter (\<lambda>x. \<not> gk x < key) xs = []"
  by (induction xs) auto

lemma lower_bound_loop_value:
  "ordered_keys gk t \<Longrightarrow>
   iter_of (lower_bound_loop gk t key res) =
     (case filter (\<lambda>x. \<not> gk x < key) (inorder t) of [] \<Rightarrow> iter_of res | x # _ \<Rightarrow> Some x)"
proof (induction t arbitrary: res)
  case Null
  then show ?case by simp
next
  case (Node p l r s v)
  have ol: "ordered_keys gk l" and or: "ordered_keys gk r"
    and lv: "\<forall>x \<in> set (inorder l). gk x < gk v"
    using Node.prems by (simp_all add: ordered_keys_Node)
  show ?case
  proof (cases "gk v < key")
    case True
    have "\<forall>x \<in> set (inorder l). gk x < key"
      using lv True by auto
    then have "filter (\<lambda>x. \<not> gk x < key) (inorder l) = []"
      by (rule filter_all_less)
    then show ?thesis
      using True Node.IH(2)[OF or, of res] by simp
  next
    case False
    then show ?thesis
      using Node.IH(1)[OF ol, of "Node p l r s v"]
      by (simp split: list.splits)
  qed
qed

lemma treap_find_filter:
  "ordered_keys gk t \<Longrightarrow>
   treap_find gk t key =
     (case filter (\<lambda>x. \<not> gk x < key) (inorder t) of
        [] \<Rightarrow> None
      | x # _ \<Rightarrow> if \<not> key < gk x then Some x else None)"
  using lower_bound_loop_value[of gk t key Null]
  by (cases "lower_bound_loop gk t key Null")
     (auto simp: treap_find_def lower_bound_node_def split: list.splits)

lemma treap_find_present:
  assumes "ordered_keys gk t" and "v \<in> set (inorder t)"
  shows "treap_find gk t (gk v) = Some v"
proof -
  obtain rest where "filter (\<lambda>x. \<not> gk x < gk v) (inorder t) = v # rest"
    using filter_ge_first[of gk "inorder t" v] assms by (auto simp: ordered_keys_sorted_wrt)
  then show ?thesis
    using assms(1) by (simp add: treap_find_filter)
qed

lemma treap_find_Some:
  assumes "ordered_keys gk t" and "treap_find gk t key = Some x"
  shows "x \<in> set (inorder t) \<and> gk x = key"
proof -
  obtain rest where f: "filter (\<lambda>x. \<not> gk x < key) (inorder t) = x # rest" and k: "\<not> key < gk x"
    using assms by (auto simp: treap_find_filter split: list.splits if_splits)
  have "x \<in> set (filter (\<lambda>x. \<not> gk x < key) (inorder t))"
    using f by simp
  then show ?thesis using k by auto
qed

lemma treap_find_None:
  assumes "ordered_keys gk t"
  shows "treap_find gk t key = None \<longleftrightarrow> key \<notin> gk ` set (inorder t)"
proof
  assume "treap_find gk t key = None"
  then show "key \<notin> gk ` set (inorder t)"
    using treap_find_present[OF assms] by fastforce
next
  assume a: "key \<notin> gk ` set (inorder t)"
  show "treap_find gk t key = None"
  proof (cases "treap_find gk t key")
    case None
    then show ?thesis .
  next
    case (Some x)
    then show ?thesis using treap_find_Some[OF assms Some] a by auto
  qed
qed

subsection \<open>The operations of the key-ordered treap keep the order\<close>

lemma ordered_keys_append:
  "inorder t = inorder a @ inorder b \<Longrightarrow>
   ordered_keys gk t =
     (ordered_keys gk a \<and> ordered_keys gk b
      \<and> (\<forall>x \<in> set (inorder a). \<forall>y \<in> set (inorder b). gk x < gk y))"
  by (auto simp: ordered_keys_def sorted_wrt_append)

lemma treap_split_ordered:
  assumes "ordered_keys gk t"
  shows "ordered_keys gk (fst (treap_split gk ki t key))
         \<and> ordered_keys gk (snd (treap_split gk ki t key))
         \<and> (\<forall>x \<in> set (inorder (fst (treap_split gk ki t key))).
               \<forall>y \<in> set (inorder (snd (treap_split gk ki t key))). gk x < gk y)"
proof -
  have "inorder t = inorder (fst (treap_split gk ki t key)) @ inorder (snd (treap_split gk ki t key))"
    by (simp add: treap_split_inorder_append)
  from ordered_keys_append[OF this, where gk=gk] assms show ?thesis
    by simp
qed

lemma treap_merge_ordered:
  fixes a :: "('p::linorder, 'v) node" and gk :: "'v \<Rightarrow> 'k::linorder"
  assumes "ordered_keys gk a" and "ordered_keys gk b"
    and "\<forall>x \<in> set (inorder a). \<forall>y \<in> set (inorder b). gk x < gk y"
  shows "ordered_keys gk (treap_merge gk a b)"
  using assms ordered_keys_append[OF treap_merge_inorder[OF assms(3)], where gk=gk]
  by simp

lemma get_value_construct_node: "get_value (construct_node prio v) = v"
  by (simp add: construct_node_def)

lemma insert_node_inorder:
  fixes t :: "('p::linorder, 'v) node" and gk :: "'v \<Rightarrow> 'k::linorder"
  assumes "ordered_keys gk t" and "gk v \<notin> gk ` set (inorder t)"
  shows "inorder (fst (insert_node gk t (construct_node prio v)))
           = inorder (fst (treap_split gk False t (gk v))) @ [v]
             @ inorder (snd (treap_split gk False t (gk v)))"
proof -
  let ?L = "fst (treap_split gk False t (gk v))" and ?R = "snd (treap_split gk False t (gk v))"
  let ?n = "construct_node prio v"
  have app: "inorder ?L @ inorder ?R = inorder t"
    by (rule treap_split_inorder_append)
  have L: "\<forall>x \<in> set (inorder ?L). gk x < gk v"
    using treap_split_fst_keys[OF assms(1), of _ False "gk v"] by auto
  have R0: "\<forall>y \<in> set (inorder ?R). \<not> gk y < gk v"
    using treap_split_snd_keys[OF assms(1), of _ False "gk v"] by auto
  have "set (inorder ?R) \<subseteq> set (inorder t)"
    using app by (metis Un_upper2 set_append)
  then have R: "\<forall>y \<in> set (inorder ?R). gk v < gk y"
    using R0 assms(2) by (metis image_eqI linorder_neqE subsetD)
  have m1: "inorder (treap_merge gk ?L ?n) = inorder ?L @ [v]"
    using L by (simp add: treap_merge_inorder inorder_construct_node)
  have "\<forall>x \<in> set (inorder (treap_merge gk ?L ?n)). \<forall>y \<in> set (inorder ?R). gk x < gk y"
    using m1 L R by (auto intro: less_trans)
  then have "inorder (treap_merge gk (treap_merge gk ?L ?n) ?R) = (inorder ?L @ [v]) @ inorder ?R"
    using m1 by (simp add: treap_merge_inorder)
  then show ?thesis
    by (cases "treap_split gk False t (gk v)")
       (simp add: insert_node_def get_value_construct_node)
qed

lemma insert_node_ordered:
  fixes t :: "('p::linorder, 'v) node" and gk :: "'v \<Rightarrow> 'k::linorder"
  assumes "ordered_keys gk t" and "gk v \<notin> gk ` set (inorder t)"
  shows "ordered_keys gk (fst (insert_node gk t (construct_node prio v)))
         \<and> set (inorder (fst (insert_node gk t (construct_node prio v)))) = insert v (set (inorder t))"
proof -
  let ?L = "fst (treap_split gk False t (gk v))" and ?R = "snd (treap_split gk False t (gk v))"
  let ?t' = "fst (insert_node gk t (construct_node prio v))"
  have io: "inorder ?t' = inorder ?L @ [v] @ inorder ?R"
    using assms by (rule insert_node_inorder)
  have app: "inorder ?L @ inorder ?R = inorder t"
    by (rule treap_split_inorder_append)
  have L: "\<forall>x \<in> set (inorder ?L). gk x < gk v"
    using treap_split_fst_keys[OF assms(1), of _ False "gk v"] by auto
  have R0: "\<forall>y \<in> set (inorder ?R). \<not> gk y < gk v"
    using treap_split_snd_keys[OF assms(1), of _ False "gk v"] by auto
  have sub: "set (inorder ?R) \<subseteq> set (inorder t)"
    using app by (metis Un_upper2 set_append)
  have R: "\<forall>y \<in> set (inorder ?R). gk v < gk y"
    using R0 assms(2) sub by (metis image_eqI linorder_neqE subsetD)
  have parts: "ordered_keys gk ?L" "ordered_keys gk ?R"
    "\<forall>x \<in> set (inorder ?L). \<forall>y \<in> set (inorder ?R). gk x < gk y"
    using treap_split_ordered[OF assms(1), of False "gk v"] by simp_all
  have "sorted_wrt (<) (map gk (inorder ?L @ [v] @ inorder ?R))"
    using parts L R by (simp add: ordered_keys_def sorted_wrt_append)
  then have o: "ordered_keys gk ?t'"
    using io by (simp add: ordered_keys_def)
  have "set (inorder ?t') = insert v (set (inorder ?L) \<union> set (inorder ?R))"
    using io by simp
  also have "\<dots> = insert v (set (inorder t))"
    using app by (metis set_append)
  finally show ?thesis using o by simp
qed

lemma emplace_with_key_ordered:
  fixes t :: "('p::linorder, 'v) node" and gk :: "'v \<Rightarrow> 'k::linorder"
  assumes "ordered_keys gk t"
  shows "ordered_keys gk (fst (emplace_with_key gk t (gk v) prio v))"
proof (cases "treap_find gk t (gk v)")
  case None
  then have "gk v \<notin> gk ` set (inorder t)"
    using treap_find_None[OF assms] by simp
  then have "ordered_keys gk (fst (insert_node gk t (construct_node prio v)))"
    using insert_node_ordered[OF assms] by simp
  then show ?thesis
    using None by (simp add: emplace_with_key_def case_prod_beta Let_def)
next
  case (Some x)
  then show ?thesis using assms by (simp add: emplace_with_key_def)
qed

lemma treap_emplace_eq_insert:
  "treap_emplace gk t prio v = treap_insert gk t v prio"
  by (simp add: treap_emplace_def treap_insert_def emplace_with_key_def
      get_value_construct_node Let_def)

lemma detach_node_key_interval_inorder:
  fixes t :: "('p::linorder, 'v) node" and gk :: "'v \<Rightarrow> 'k::linorder"
  assumes "ordered_keys gk t"
  shows "inorder (fst (detach_node_key_interval gk ei t b e))
           = inorder (fst (treap_split gk False t b))
             @ inorder (snd (treap_split gk ei (snd (treap_split gk False t b)) e))"
    and "snd (detach_node_key_interval gk ei t b e)
           = fst (treap_split gk ei (snd (treap_split gk False t b)) e)"
proof -
  let ?L = "fst (treap_split gk False t b)" and ?B = "snd (treap_split gk False t b)"
  let ?I = "fst (treap_split gk ei ?B e)" and ?R = "snd (treap_split gk ei ?B e)"
  have "inorder ?I @ inorder ?R = inorder ?B"
    by (rule treap_split_inorder_append)
  then have sub: "set (inorder ?R) \<subseteq> set (inorder ?B)"
    by (metis Un_upper2 set_append)
  have "\<forall>x \<in> set (inorder ?L). \<forall>y \<in> set (inorder ?B). gk x < gk y"
    using treap_split_ordered[OF assms, of False b] by simp
  then have "\<forall>x \<in> set (inorder ?L). \<forall>y \<in> set (inorder ?R). gk x < gk y"
    using sub by blast
  then have "inorder (treap_merge gk ?L ?R) = inorder ?L @ inorder ?R"
    by (rule treap_merge_inorder)
  then show "inorder (fst (detach_node_key_interval gk ei t b e)) = inorder ?L @ inorder ?R"
    by (simp add: detach_node_key_interval_def case_prod_beta)
  show "snd (detach_node_key_interval gk ei t b e) = ?I"
    by (simp add: detach_node_key_interval_def case_prod_beta)
qed

lemma detach_node_key_interval_ordered:
  fixes t :: "('p::linorder, 'v) node" and gk :: "'v \<Rightarrow> 'k::linorder"
  assumes "ordered_keys gk t"
  shows "ordered_keys gk (fst (detach_node_key_interval gk ei t b e))"
proof -
  let ?L = "fst (treap_split gk False t b)" and ?B = "snd (treap_split gk False t b)"
  let ?I = "fst (treap_split gk ei ?B e)" and ?R = "snd (treap_split gk ei ?B e)"
  have s1: "ordered_keys gk ?L" "ordered_keys gk ?B"
    "\<forall>x \<in> set (inorder ?L). \<forall>y \<in> set (inorder ?B). gk x < gk y"
    using treap_split_ordered[OF assms, of False b] by simp_all
  have s2: "ordered_keys gk ?R"
    using treap_split_ordered[OF s1(2), of ei e] by simp
  have "inorder ?I @ inorder ?R = inorder ?B"
    by (rule treap_split_inorder_append)
  then have sub: "set (inorder ?R) \<subseteq> set (inorder ?B)"
    by (metis Un_upper2 set_append)
  have "sorted_wrt (<) (map gk (inorder ?L @ inorder ?R))"
    using s1 s2 sub by (auto simp: ordered_keys_def sorted_wrt_append)
  then show ?thesis
    using detach_node_key_interval_inorder(1)[OF assms, of ei b e]
    by (simp add: ordered_keys_def)
qed

lemma treap_apply_ordered:
  fixes t :: "('p::linorder, 'v) node" and gk :: "'v \<Rightarrow> 'k::linorder"
  assumes "ordered_keys gk t"
  shows "ordered_keys gk (treap_apply gk t operation)"
proof (cases operation)
  case (K_insert v prio)
  then show ?thesis
    using emplace_with_key_ordered[OF assms] by (simp add: treap_insert_def)
next
  case (K_emplace prio v)
  then show ?thesis
    using emplace_with_key_ordered[OF assms]
    by (simp add: treap_emplace_eq_insert treap_insert_def)
next
  case (K_erase_key key)
  then show ?thesis
    using detach_node_key_interval_ordered[OF assms]
    by (simp add: erase_key_def detach_node_with_key_def)
next
  case (K_erase_key_interval b e)
  then show ?thesis
    using detach_node_key_interval_ordered[OF assms] by (simp add: erase_key_interval_def)
next
  case (K_erase_key_interval_with_end b e)
  then show ?thesis
    using detach_node_key_interval_ordered[OF assms]
    by (simp add: erase_key_interval_with_end_def)
qed

lemma foldl_treap_apply_ordered:
  fixes t :: "('p::linorder, 'v) node" and gk :: "'v \<Rightarrow> 'k::linorder"
  shows "ordered_keys gk t \<Longrightarrow> ordered_keys gk (foldl (treap_apply gk) t ops)"
  by (induction ops arbitrary: t) (simp_all add: treap_apply_ordered)

text \<open>
  C2.  Every state of the key-ordered treap reached from the empty container by a sequence
  of \<open>insert\<close>, \<open>emplace\<close>, \<open>erase_key\<close>, \<open>erase_key_interval\<close> and
  \<open>erase_key_interval_with_end\<close> calls, whatever priorities the generator draws, has an
  in-order traversal whose keys increase strictly under the comparator; so no two nodes
  with the same key are present together.
\<close>

theorem treap_reachable_strictly_increasing:
  fixes gk :: "'v \<Rightarrow> 'k::linorder" and ops :: "('p::linorder, 'k, 'v) treap_op list"
  shows "sorted_wrt (<) (map gk (inorder (treap_run gk ops)))
         \<and> distinct (map gk (inorder (treap_run gk ops)))"
proof -
  have "ordered_keys gk (treap_run gk ops)"
    unfolding treap_run_def by (rule foldl_treap_apply_ordered) (rule ordered_keys_Null)
  then have s: "sorted_wrt (<) (map gk (inorder (treap_run gk ops)))"
    by (simp add: ordered_keys_def)
  then show ?thesis
    by (simp add: strict_sorted_iff)
qed

subsection \<open>The size invariant is kept by every operation\<close>

lemma insert_node_size_inv:
  fixes t :: "('p::linorder, 'v) node" and gk :: "'v \<Rightarrow> 'k::linorder"
  shows "size_inv t \<Longrightarrow> size_inv n \<Longrightarrow> size_inv (fst (insert_node gk t n))"
  using treap_split_size_inv[of t gk False "gk (get_value n)"]
  by (simp add: insert_node_def case_prod_beta treap_merge_size_inv)

lemma emplace_with_key_size_inv:
  fixes t :: "('p::linorder, 'v) node" and gk :: "'v \<Rightarrow> 'k::linorder"
  shows "size_inv t \<Longrightarrow> size_inv (fst (emplace_with_key gk t key prio v))"
  by (simp add: emplace_with_key_def case_prod_beta Let_def insert_node_size_inv
      size_inv_construct_node)

lemma detach_node_key_interval_size_inv:
  fixes t :: "('p::linorder, 'v) node" and gk :: "'v \<Rightarrow> 'k::linorder"
  assumes "size_inv t"
  shows "size_inv (fst (detach_node_key_interval gk ei t b e))"
proof -
  have 1: "size_inv (fst (treap_split gk False t b))" "size_inv (snd (treap_split gk False t b))"
    using treap_split_size_inv[OF assms, of gk False b] by simp_all
  have 2: "size_inv (snd (treap_split gk ei (snd (treap_split gk False t b)) e))"
    using treap_split_size_inv[OF 1(2), of gk ei e] by simp
  show ?thesis
    using 1 2 by (simp add: detach_node_key_interval_def case_prod_beta treap_merge_size_inv)
qed

lemma treap_apply_size_inv:
  fixes t :: "('p::linorder, 'v) node" and gk :: "'v \<Rightarrow> 'k::linorder"
  assumes "size_inv t"
  shows "size_inv (treap_apply gk t operation)"
  using assms
  by (cases operation)
     (simp_all add: treap_insert_def treap_emplace_eq_insert emplace_with_key_size_inv
       erase_key_def erase_key_interval_def erase_key_interval_with_end_def
       detach_node_with_key_def detach_node_key_interval_size_inv)

lemma foldl_treap_apply_size_inv:
  fixes t :: "('p::linorder, 'v) node" and gk :: "'v \<Rightarrow> 'k::linorder"
  shows "size_inv t \<Longrightarrow> size_inv (foldl (treap_apply gk) t ops)"
  by (induction ops arbitrary: t) (simp_all add: treap_apply_size_inv)

lemma implicit_insert_node_size_inv:
  "size_inv t \<Longrightarrow> size_inv n \<Longrightarrow> size_inv (implicit_insert_node t n index)"
  using implicit_split_size_inv[of t index]
  by (simp add: implicit_insert_node_def case_prod_beta implicit_merge_size_inv)

lemma implicit_emplace_size_inv:
  "size_inv t \<Longrightarrow> size_inv (implicit_emplace t index prio v)"
  by (simp add: implicit_emplace_def Let_def implicit_insert_node_size_inv size_inv_construct_node)

lemma detach_node_with_index_size_inv:
  assumes "size_inv t"
  shows "size_inv (fst (detach_node_with_index t index))"
proof -
  have 1: "size_inv (fst (implicit_split t index))" "size_inv (snd (implicit_split t index))"
    using implicit_split_size_inv[OF assms, of index] by simp_all
  have 2: "size_inv (snd (implicit_split (snd (implicit_split t index)) 1))"
    using implicit_split_size_inv[OF 1(2), of 1] by simp
  show ?thesis
    using 1 2 by (simp add: detach_node_with_index_def case_prod_beta implicit_merge_size_inv)
qed

lemma implicit_erase_size_inv: "size_inv t \<Longrightarrow> size_inv (implicit_erase t index)"
  by (simp add: implicit_erase_def detach_node_with_index_size_inv)

lemma implicit_apply_size_inv:
  assumes "size_inv t"
  shows "size_inv (implicit_apply t operation)"
  using assms
  by (cases operation)
     (simp_all add: implicit_insert_def push_back_def push_front_def emplace_back_def
       emplace_front_def pop_back_def pop_front_def implicit_emplace_size_inv
       implicit_erase_size_inv)

lemma foldl_implicit_apply_size_inv:
  "size_inv t \<Longrightarrow> size_inv (foldl implicit_apply t ops)"
  by (induction ops arbitrary: t) (simp_all add: implicit_apply_size_inv)

lemma TreapNode_merge_size_inv:
  "size_inv a \<Longrightarrow> size_inv b \<Longrightarrow> size_inv (TreapNode_merge a b)"
  using treap_merge_size_inv[of a b "\<lambda>k. k"] by (simp add: treap_merge_eq_TreapNode_merge)

lemma TreapNode_split_size_inv:
  "size_inv t \<Longrightarrow> size_inv (fst (TreapNode_split t val)) \<and> size_inv (snd (TreapNode_split t val))"
  using treap_split_size_inv[of t "\<lambda>k. k" False val] by (simp add: TreapNode_split_eq_treap_split)

lemma Treap_insert_size_inv:
  assumes "size_inv t"
  shows "size_inv (Treap_insert t val prio)"
  using assms TreapNode_split_size_inv[OF assms, of val]
  by (simp add: Treap_insert_def Let_def TreapNode_new_def TreapNode_merge_size_inv)

lemma Treap_remove_size_inv:
  assumes "size_inv t"
  shows "size_inv (snd (Treap_remove t val freed_size))"
proof -
  have 1: "size_inv (fst (TreapNode_split t val))" "size_inv (snd (TreapNode_split t val))"
    using TreapNode_split_size_inv[OF assms, of val] by simp_all
  have 2: "size_inv (snd (TreapNode_split (snd (TreapNode_split t val)) (key_plus_one val)))"
    "size_inv (fst (TreapNode_split (snd (TreapNode_split t val)) (key_plus_one val)))"
    using TreapNode_split_size_inv[OF 1(2), of "key_plus_one val"] by simp_all
  show ?thesis
    using 1 2
    by (auto simp add: Treap_remove_def root_node_tree_def Let_def TreapNode_merge_size_inv
        simp del: TreapNode_split.simps split: node.splits)
qed

lemma foldl_Treap_apply_size_inv:
  "size_inv t \<Longrightarrow> size_inv (foldl Treap_apply t ops)"
proof (induction ops arbitrary: t)
  case Nil
  then show ?case by simp
next
  case (Cons operation ops)
  have "size_inv (Treap_apply t operation)"
    using Cons.prems by (cases operation) (simp_all add: Treap_insert_size_inv Treap_remove_size_inv)
  then show ?case using Cons.IH by simp
qed

text \<open>
  C3.  After every mutating operation every node satisfies
  \<open>size(node) = 1 + size(left) + size(right)\<close>, an absent child counting 0: the invariant
  holds in every state reached from the empty container by the operations of the
  key-ordered treap (\<open>insert\<close>, \<open>emplace\<close>, \<open>erase_key\<close> and the two interval erasures),
  of the implicit treap (\<open>insert\<close>, \<open>push_back\<close>, \<open>push_front\<close>, \<open>erase\<close>,
  \<open>pop_back\<close>, \<open>pop_front\<close>) and of the \<open>Treap\<close> of treap.h (\<open>insert\<close>,
  \<open>remove\<close>, also when \<open>remove\<close> throws, when its \<open>value + 1\<close> wraps, and
  whatever it reads from the freed root).  In the model as in the code, a child is
  replaced only through \<open>set_left\<close> and \<open>set_right\<close>, which recompute the size.
\<close>

theorem size_invariant_reachable:
  fixes gk :: "'v \<Rightarrow> 'k::linorder" and ops :: "('p::linorder, 'k, 'v) treap_op list"
    and iops :: "('q::linorder, 'w) implicit_op list" and lops :: "('r::linorder) Treap_op list"
  shows "size_inv (treap_run gk ops) \<and> size_inv (implicit_run iops) \<and> size_inv (Treap_run lops)"
  unfolding treap_run_def implicit_run_def Treap_run_def
  by (simp add: foldl_treap_apply_size_inv foldl_implicit_apply_size_inv
      foldl_Treap_apply_size_inv)

subsection \<open>Merge keeps the order and the heap property\<close>

text \<open>
  C1.  Let \<open>A\<close> and \<open>B\<close> satisfy the heap property and the size invariant, and let every
  element of \<open>A\<close> precede every element of \<open>B\<close>: in key order for the two key-ordered
  merges (\<open>treap::merge\<close> of treap.hpp, \<open>TreapNode::merge\<close> of treap.h), by position
  for the implicit treap, where \<open>A\<close> is the first argument and no key is compared.  Then
  \<open>merge(A, B)\<close> has the nodes (priority and payload) of \<open>A\<close> followed by those of
  \<open>B\<close> as its in-order sequence, so its multiset of nodes is the union and its in-order
  traversal is that of \<open>A\<close> followed by that of \<open>B\<close>; and it satisfies the heap
  property (and the size invariant) again.
\<close>

theorem merge_correct:
  fixes A B E F :: "('p::linorder, 'v) node" and gk :: "'v \<Rightarrow> 'k::linorder"
    and C D :: "('q::linorder, 'j::linorder) node"
  assumes "heap A" and "heap B" and "size_inv A" and "size_inv B"
    and "\<forall>x \<in> set (inorder A). \<forall>y \<in> set (inorder B). gk x < gk y"
    and "heap C" and "heap D" and "size_inv C" and "size_inv D"
    and "\<forall>x \<in> set (inorder C). \<forall>y \<in> set (inorder D). x < y"
    and "heap E" and "heap F" and "size_inv E" and "size_inv F"
  shows "node_entries (treap_merge gk A B) = node_entries A @ node_entries B
         \<and> mset (node_entries (treap_merge gk A B)) = mset (node_entries A) + mset (node_entries B)
         \<and> inorder (treap_merge gk A B) = inorder A @ inorder B
         \<and> heap (treap_merge gk A B) \<and> size_inv (treap_merge gk A B)
         \<and> node_entries (TreapNode_merge C D) = node_entries C @ node_entries D
         \<and> mset (node_entries (TreapNode_merge C D)) = mset (node_entries C) + mset (node_entries D)
         \<and> inorder (TreapNode_merge C D) = inorder C @ inorder D
         \<and> heap (TreapNode_merge C D) \<and> size_inv (TreapNode_merge C D)
         \<and> node_entries (implicit_merge E F) = node_entries E @ node_entries F
         \<and> mset (node_entries (implicit_merge E F)) = mset (node_entries E) + mset (node_entries F)
         \<and> inorder (implicit_merge E F) = inorder E @ inorder F
         \<and> heap (implicit_merge E F) \<and> size_inv (implicit_merge E F)"
proof -
  have k: "node_entries (treap_merge gk A B) = node_entries A @ node_entries B"
    using assms(5) by (rule treap_merge_entries)
  have k': "inorder (treap_merge gk A B) = inorder A @ inorder B"
    using assms(5) by (rule treap_merge_inorder)
  have "\<forall>x \<in> set (inorder C). \<forall>y \<in> set (inorder D). (\<lambda>k. k) x < (\<lambda>k. k) y"
    using assms(10) by simp
  then have "node_entries (treap_merge (\<lambda>k. k) C D) = node_entries C @ node_entries D"
    and "inorder (treap_merge (\<lambda>k. k) C D) = inorder C @ inorder D"
    by (rule treap_merge_entries, rule treap_merge_inorder)
  then have l: "node_entries (TreapNode_merge C D) = node_entries C @ node_entries D"
    and l': "inorder (TreapNode_merge C D) = inorder C @ inorder D"
    by (simp_all add: treap_merge_eq_TreapNode_merge)
  have lh: "heap (TreapNode_merge C D)" and ls: "size_inv (TreapNode_merge C D)"
    using treap_merge_heap[OF assms(6,7), of "\<lambda>k. k"] assms(8,9)
    by (simp_all add: treap_merge_eq_TreapNode_merge TreapNode_merge_size_inv)
  have kh: "heap (treap_merge gk A B)" and ks: "size_inv (treap_merge gk A B)"
    using assms(1-4) by (simp_all add: treap_merge_heap treap_merge_size_inv)
  have ih: "heap (implicit_merge E F)" and "size_inv (implicit_merge E F)"
    using assms(11-14) by (simp_all add: implicit_merge_heap implicit_merge_size_inv)
  then show ?thesis
    using k k' l l' lh ls kh ks
    by (simp add: implicit_merge_entries implicit_merge_inorder)
qed

theorem merge_correct_witness:
  "heap (Node (5 :: 64 word) Null Null 1 (1 :: int))
   \<and> heap (Node (7 :: 64 word) (Node 2 Null Null 1 (4 :: int)) Null 2 9)
   \<and> size_inv (Node (5 :: 64 word) Null Null 1 (1 :: int))
   \<and> size_inv (Node (7 :: 64 word) (Node 2 Null Null 1 (4 :: int)) Null 2 9)
   \<and> inorder (Node (5 :: 64 word) Null Null 1 (1 :: int)) = [1]
   \<and> inorder (Node (7 :: 64 word) (Node 2 Null Null 1 (4 :: int)) Null 2 9) = [4, 9]
   \<and> heap (Node (5 :: 32 word) Null Null 1 (1 :: int))
   \<and> heap (Node (7 :: 32 word) (Node 2 Null Null 1 (4 :: int)) Null 2 9)
   \<and> size_inv (Node (5 :: 32 word) Null Null 1 (1 :: int))
   \<and> size_inv (Node (7 :: 32 word) (Node 2 Null Null 1 (4 :: int)) Null 2 9)
   \<and> inorder (treap_merge (\<lambda>k. k) (Node (5 :: 64 word) Null Null 1 (1 :: int))
         (Node (7 :: 64 word) (Node 2 Null Null 1 (4 :: int)) Null 2 9)) = [1, 4, 9]
   \<and> heap (treap_merge (\<lambda>k. k) (Node (5 :: 64 word) Null Null 1 (1 :: int))
         (Node (7 :: 64 word) (Node 2 Null Null 1 (4 :: int)) Null 2 9))
   \<and> inorder (TreapNode_merge (Node (5 :: 32 word) Null Null 1 (1 :: int))
         (Node (7 :: 32 word) (Node 2 Null Null 1 (4 :: int)) Null 2 9)) = [1, 4, 9]
   \<and> heap (TreapNode_merge (Node (5 :: 32 word) Null Null 1 (1 :: int))
         (Node (7 :: 32 word) (Node 2 Null Null 1 (4 :: int)) Null 2 9))
   \<and> inorder (implicit_merge (Node (5 :: 64 word) Null Null 1 (1 :: int))
         (Node (7 :: 64 word) (Node 2 Null Null 1 (4 :: int)) Null 2 9)) = [1, 4, 9]
   \<and> heap (implicit_merge (Node (5 :: 64 word) Null Null 1 (1 :: int))
         (Node (7 :: 64 word) (Node 2 Null Null 1 (4 :: int)) Null 2 9))"
proof -
  let ?A = "Node (5 :: 64 word) Null Null 1 (1 :: int)"
  let ?B = "Node (7 :: 64 word) (Node 2 Null Null 1 (4 :: int)) Null 2 9"
  let ?C = "Node (5 :: 32 word) Null Null 1 (1 :: int)"
  let ?D = "Node (7 :: 32 word) (Node 2 Null Null 1 (4 :: int)) Null 2 9"
  have a: "heap ?A" "heap ?B" "size_inv ?A" "size_inv ?B"
    "\<forall>x \<in> set (inorder ?A). \<forall>y \<in> set (inorder ?B). (\<lambda>k. k) x < (\<lambda>k. k) y"
    by simp_all
  have c: "heap ?C" "heap ?D" "size_inv ?C" "size_inv ?D"
    "\<forall>x \<in> set (inorder ?C). \<forall>y \<in> set (inorder ?D). x < y"
    by simp_all
  show ?thesis
    using a c merge_correct[OF a c a(1-4)] by simp
qed

subsection \<open>Positional insertion and erasure in the implicit treap\<close>

lemma implicit_insert_node_inorder:
  assumes "size_inv t"
  shows "inorder (implicit_insert_node t n index)
           = take index (inorder t) @ inorder n @ drop index (inorder t)"
  using implicit_split_inorder[OF assms, of index]
  by (simp add: implicit_insert_node_def case_prod_beta implicit_merge_inorder)

lemma implicit_emplace_inorder:
  assumes "size_inv t"
  shows "inorder (implicit_emplace t index prio v)
           = take (min index (size_of t)) (inorder t) @ [v]
             @ drop (min index (size_of t)) (inorder t)"
proof -
  have "(if index > size_of t then size_of t else index) = min index (size_of t)"
    by simp
  then show ?thesis
    using assms
    by (simp add: implicit_emplace_def Let_def implicit_insert_node_inorder
        inorder_construct_node del: min_less_iff_conj)
qed

lemma implicit_erase_inorder:
  assumes "size_inv t" and "index < size_of t"
  shows "inorder (implicit_erase t index) = take index (inorder t) @ drop (index + 1) (inorder t)"
proof -
  let ?L = "fst (implicit_split t index)" and ?B = "snd (implicit_split t index)"
  have 1: "inorder ?L = take index (inorder t)" "inorder ?B = drop index (inorder t)"
    using implicit_split_inorder[OF assms(1), of index] by simp_all
  have "size_inv ?B"
    using implicit_split_size_inv[OF assms(1), of index] by simp
  then have "inorder (snd (implicit_split ?B 1)) = drop 1 (inorder ?B)"
    using implicit_split_inorder[of ?B 1] by simp
  then have "inorder (snd (implicit_split ?B 1)) = drop (index + 1) (inorder t)"
    using 1 by simp
  then show ?thesis
    using assms(2) 1
    by (simp add: implicit_erase_def detach_node_with_index_def case_prod_beta
        implicit_merge_inorder)
qed

text \<open>
  C8.  On a tree with the size invariant, \<open>insert(value, index)\<close> and
  \<open>emplace(index, value)\<close> of the implicit treap place the new element at position
  \<open>min(index, size)\<close>: the elements before that position stay, the new element follows,
  and the elements from that position on follow it, in their order.  With any priorities,
  \<open>push_back(10)\<close>, \<open>push_back(20)\<close>, \<open>insert(15, 1)\<close> on the empty container give
  the sequence 10, 15, 20, and \<open>erase(0)\<close> then gives 15, 20.
\<close>

theorem implicit_insert_position:
  fixes root :: "('p::linorder, 'v) node" and p1 p2 p3 :: "'q::linorder"
  assumes "size_inv root"
  shows "inorder (implicit_insert root v index prio)
           = take (min index (size_of root)) (inorder root) @ [v]
             @ drop (min index (size_of root)) (inorder root)
         \<and> implicit_emplace root index prio v = implicit_insert root v index prio
         \<and> size_of (implicit_insert root v index prio) = size_of root + 1
         \<and> inorder (implicit_insert (push_back (push_back Null (10 :: int) p1) 20 p2) 15 1 p3)
             = [10, 15, 20]
         \<and> inorder (implicit_erase
                      (implicit_insert (push_back (push_back Null (10 :: int) p1) 20 p2) 15 1 p3) 0)
             = [15, 20]"
proof -
  have a: "inorder (implicit_insert root v index prio)
             = take (min index (size_of root)) (inorder root) @ [v]
               @ drop (min index (size_of root)) (inorder root)"
    using assms by (simp add: implicit_insert_def implicit_emplace_inorder)
  have "size_inv (implicit_insert root v index prio)"
    using assms by (simp add: implicit_insert_def implicit_emplace_size_inv)
  then have "size_of (implicit_insert root v index prio)
               = length (inorder (implicit_insert root v index prio))"
    by (rule size_of_inorder)
  then have b: "size_of (implicit_insert root v index prio) = size_of root + 1"
    using a size_of_inorder[OF assms] by simp
  let ?t1 = "push_back (Null :: ('q, int) node) 10 p1"
  let ?t2 = "push_back ?t1 20 p2"
  let ?t3 = "implicit_insert ?t2 15 1 p3"
  have i1: "size_inv ?t1" and s1: "inorder ?t1 = [10]"
    by (simp_all add: push_back_def emplace_back_def implicit_emplace_size_inv
        implicit_emplace_inorder)
  have i2: "size_inv ?t2"
    using i1 by (simp add: push_back_def emplace_back_def implicit_emplace_size_inv)
  have s2: "inorder ?t2 = [10, 20]"
    using i1 s1 size_of_inorder[OF i1]
    by (simp add: push_back_def[of ?t1] emplace_back_def implicit_emplace_inorder)
  have i3: "size_inv ?t3"
    using i2 by (simp add: implicit_insert_def implicit_emplace_size_inv)
  have s3: "inorder ?t3 = [10, 15, 20]"
    using i2 s2 size_of_inorder[OF i2]
    by (simp add: implicit_insert_def implicit_emplace_inorder)
  have "0 < size_of ?t3"
    using s3 size_of_inorder[OF i3] by simp
  then have "inorder (implicit_erase ?t3 0) = take 0 (inorder ?t3) @ drop (0 + 1) (inorder ?t3)"
    using i3 by (rule implicit_erase_inorder[rotated])
  then have s4: "inorder (implicit_erase ?t3 0) = [15, 20]"
    using s3 by simp
  show ?thesis
    using a b s3 s4 by (simp add: implicit_insert_def)
qed

theorem implicit_insert_position_witness:
  "size_inv (Node (9 :: 64 word) (Node 4 Null Null 1 ''a'') (Node 1 Null Null 1 ''c'') 3 ''b'')
   \<and> inorder (implicit_insert
        (Node (9 :: 64 word) (Node 4 Null Null 1 ''a'') (Node 1 Null Null 1 ''c'') 3 ''b'')
        ''x'' 1 6) = [''a'', ''x'', ''b'', ''c'']
   \<and> inorder (implicit_insert
        (Node (9 :: 64 word) (Node 4 Null Null 1 ''a'') (Node 1 Null Null 1 ''c'') 3 ''b'')
        ''x'' 7 6) = [''a'', ''b'', ''c'', ''x'']
   \<and> inorder (implicit_insert (push_back (push_back Null (10 :: int) (3 :: 64 word)) 20 8) 15 1 5)
       = [10, 15, 20]"
proof -
  let ?t = "Node (9 :: 64 word) (Node 4 Null Null 1 ''a'') (Node 1 Null Null 1 ''c'') 3 ''b''"
  have inv: "size_inv ?t" by simp
  show ?thesis
    using inv implicit_insert_position[OF inv, of "''x''" 1 6 "3 :: 64 word" 8 5]
      implicit_insert_position[OF inv, of "''x''" 7 6 "3 :: 64 word" 8 5]
    by simp
qed

subsection \<open>Erasing an absent target\<close>

lemma inorder_Nil_iff: "inorder t = [] \<longleftrightarrow> t = Null"
  by (cases t) auto


lemma ordered_keys_id_TreapNode_split:
  fixes t :: "('p, 'k::linorder) node"
  assumes "ordered_keys (\<lambda>k. k) t"
  shows "ordered_keys (\<lambda>k. k) (snd (TreapNode_split t val))"
    and "\<forall>x \<in> set (inorder (fst (TreapNode_split t val))). x < val"
    and "\<forall>x \<in> set (inorder (snd (TreapNode_split t val))). \<not> x < val"
    and "inorder (fst (TreapNode_split t val)) @ inorder (snd (TreapNode_split t val)) = inorder t"
  using treap_split_ordered[OF assms, of False val]
    treap_split_fst_keys[OF assms, of _ False val]
    treap_split_snd_keys[OF assms, of _ False val]
    treap_split_inorder_append[of "\<lambda>k. k" False t val]
  by (auto simp: TreapNode_split_eq_treap_split)


text \<open>Two runs of \<open>Treap::remove\<close> on the tree with the keys 1 and \<open>k\<close> at the
  root.  For the largest key the pivot wraps below every key, the middle part is empty and
  the call throws although the key is present; the key 1 is cut off.  For another key at
  the root the root node is the one deleted, and the result depends on what \<open>empty()\<close>
  reads behind the dangling root pointer.\<close>

lemma Treap_remove_largest_key:
  "Treap_remove (Node (9 :: 32 word) (Node 4 Null Null 1 1) Null 2 (2 ^ 31 - 1)) (2 ^ 31 - 1)
     freed_size
     = (Some ElementNotFound, Node 9 Null Null 1 (2 ^ 31 - 1))"
  by (simp add: Treap_remove_def root_node_tree_def key_plus_one_def)

lemma Treap_remove_root_key:
  "Treap_remove (Node (9 :: 32 word) (Node 4 Null Null 1 1) Null 2 5) 5 freed_size
     = (None, if freed_size = 0 then Null else Node 4 Null Null 1 1)"
  by (simp add: Treap_remove_def root_node_tree_def key_plus_one_def size_read_by_empty_def
      root_deleted_def)

subsection \<open>Splitting and merging back\<close>

lemma prio_ok_mono: "prio_ok p x \<Longrightarrow> p \<le> q \<Longrightarrow> prio_ok q x"
  by (cases x) auto


lemma treap_split_prio_ok:
  "heap t \<Longrightarrow> prio_ok q t \<Longrightarrow>
   prio_ok q (fst (treap_split gk ki t key)) \<and> prio_ok q (snd (treap_split gk ki t key))"
proof (induction t)
  case Null
  then show ?case by (simp add: treap_split_Null)
next
  case (Node p l r s v)
  have "prio_ok q l" "prio_ok q r"
    using Node.prems by (auto intro: prio_ok_mono)
  then show ?case
    using Node by (simp add: treap_split_Node)
qed








subsection \<open>Duplicate insertion\<close>

lemma nodeOfKey_present:
  fixes t :: "('p, 'k::linorder) node"
  shows "ordered_keys (\<lambda>k. k) t \<Longrightarrow> val \<in> set (inorder t) \<Longrightarrow>
         nodeOfKey t val \<noteq> Null \<and> get_value (nodeOfKey t val) = val"
proof (induction t)
  case Null
  then show ?case by simp
next
  case (Node p l r s k)
  have o: "ordered_keys (\<lambda>k. k) l" "ordered_keys (\<lambda>k. k) r"
    "\<forall>x \<in> set (inorder l). x < k" "\<forall>y \<in> set (inorder r). k < y"
    using Node.prems(1) by (simp_all add: ordered_keys_Node)
  show ?case
  proof (cases "val = k")
    case True
    then show ?thesis by simp
  next
    case ne: False
    show ?thesis
    proof (cases "val < k")
      case True
      then have "val \<in> set (inorder l)"
        using Node.prems(2) ne o(4) by auto
      then show ?thesis
        using Node.IH(1)[OF o(1)] ne True by simp
    next
      case False
      then have "val \<in> set (inorder r)"
        using Node.prems(2) ne o(3) by auto
      then show ?thesis
        using Node.IH(2)[OF o(2)] ne False by simp
    qed
  qed
qed

lemma nodeOfKey_absent:
  fixes t :: "('p, 'k::linorder) node"
  shows "val \<notin> set (inorder t) \<Longrightarrow> nodeOfKey t val = Null"
  by (induction t) auto

text \<open>
  C5.  In an ordered tree of the key-ordered treap that holds an element \<open>x\<close> with the key
  of \<open>v\<close>, \<open>insert(v)\<close> (and \<open>emplace\<close>) returns the iterator to \<open>x\<close> and the flag
  \<open>false\<close>, as a value and not as an error, and the root it returns is the tree it was
  given: the contents, the keys and \<open>size()\<close> are as before.  \<open>Treap::insert\<close> of
  treap.h returns nothing; with a key that is present it returns the tree it was given.
\<close>

theorem insert_duplicate:
  fixes t :: "('p::linorder, 'v) node" and gk :: "'v \<Rightarrow> 'k::linorder"
    and l :: "('q::linorder, 'j::linorder) node"
  assumes "ordered_keys gk t" and "x \<in> set (inorder t)" and "gk x = gk v"
    and "ordered_keys (\<lambda>k. k) l" and "val \<in> set (inorder l)"
  shows "treap_insert gk t v prio = (t, Some x, False)
         \<and> treap_emplace gk t prio v = (t, Some x, False)
         \<and> emplace_with_key gk t (gk v) prio v = (t, Some x, False)
         \<and> Treap_insert l val prio' = l"
proof -
  have "treap_find gk t (gk v) = Some x"
    using treap_find_present[OF assms(1,2)] assms(3) by simp
  then have a: "emplace_with_key gk t (gk v) prio v = (t, Some x, False)"
    by (simp add: emplace_with_key_def)
  have "Treap_contains l val"
    using nodeOfKey_present[OF assms(4,5)] by (simp add: Treap_contains_def)
  then have "Treap_insert l val prio' = l"
    by (simp add: Treap_insert_def)
  then show ?thesis
    using a by (simp add: treap_insert_def treap_emplace_eq_insert)
qed

theorem insert_duplicate_witness:
  "ordered_keys fst (Node (10 :: 64 word) Null Null 1 (5 :: int, ''old''))
   \<and> (5 :: int, ''old'') \<in> set (inorder (Node (10 :: 64 word) Null Null 1 (5 :: int, ''old'')))
   \<and> fst (5 :: int, ''old'') = fst (5 :: int, ''new'')
   \<and> ordered_keys (\<lambda>k. k) (Node (10 :: 32 word) Null Null 1 (5 :: int))
   \<and> (5 :: int) \<in> set (inorder (Node (10 :: 32 word) Null Null 1 (5 :: int)))
   \<and> treap_insert fst (Node (10 :: 64 word) Null Null 1 (5 :: int, ''old'')) (5, ''new'') 3
       = (Node (10 :: 64 word) Null Null 1 (5 :: int, ''old''), Some (5, ''old''), False)
   \<and> Treap_insert (Node (10 :: 32 word) Null Null 1 (5 :: int)) 5 3
       = Node (10 :: 32 word) Null Null 1 (5 :: int)"
proof -
  let ?t = "Node (10 :: 64 word) Null Null 1 (5 :: int, ''old'')"
  let ?l = "Node (10 :: 32 word) Null Null 1 (5 :: int)"
  have h: "ordered_keys fst ?t" "(5 :: int, ''old'') \<in> set (inorder ?t)"
    "fst (5 :: int, ''old'') = fst (5 :: int, ''new'')"
    "ordered_keys (\<lambda>k. k) ?l" "(5 :: int) \<in> set (inorder ?l)"
    by (simp_all add: ordered_keys_def)
  show ?thesis
    using h insert_duplicate[OF h, of 3 3] by simp
qed

subsection \<open>The invariants hold in every reachable state\<close>

lemma treap_split_heap:
  "heap t \<Longrightarrow> heap (fst (treap_split gk ki t key)) \<and> heap (snd (treap_split gk ki t key))"
proof (induction t)
  case Null
  then show ?case by (simp add: treap_split_Null)
next
  case (Node p l r s v)
  have "prio_ok p (fst (treap_split gk ki r key))" "prio_ok p (snd (treap_split gk ki l key))"
    using Node.prems treap_split_prio_ok[of r p gk ki key] treap_split_prio_ok[of l p gk ki key]
    by simp_all
  then show ?case
    using Node by (simp add: treap_split_Node)
qed

lemma treap_apply_heap:
  fixes t :: "('p::linorder, 'v) node" and gk :: "'v \<Rightarrow> 'k::linorder"
  assumes "heap t"
  shows "heap (treap_apply gk t operation)"
proof -
  have ins: "heap (fst (emplace_with_key gk t key prio v))" for key prio v
    using assms treap_split_heap[OF assms, of gk False "gk v"]
    by (simp add: emplace_with_key_def insert_node_def case_prod_beta Let_def
        treap_merge_heap construct_node_def get_value_construct_node)
  have det: "heap (fst (detach_node_key_interval gk ei t b e))" for ei b e
  proof -
    have 1: "heap (fst (treap_split gk False t b))" "heap (snd (treap_split gk False t b))"
      using treap_split_heap[OF assms, of gk False b] by simp_all
    have "heap (snd (treap_split gk ei (snd (treap_split gk False t b)) e))"
      using treap_split_heap[OF 1(2), of gk ei e] by simp
    then show ?thesis
      using 1 by (simp add: detach_node_key_interval_def case_prod_beta treap_merge_heap)
  qed
  show ?thesis
    using ins det
    by (cases operation)
       (simp_all add: treap_insert_def treap_emplace_eq_insert erase_key_def
         erase_key_interval_def erase_key_interval_with_end_def detach_node_with_key_def)
qed

lemma treap_run_invariants:
  fixes gk :: "'v \<Rightarrow> 'k::linorder" and ops :: "('p::linorder, 'k, 'v) treap_op list"
  shows "ordered_keys gk (treap_run gk ops) \<and> size_inv (treap_run gk ops)
         \<and> heap (treap_run gk ops)"
proof -
  have "heap t \<Longrightarrow> heap (foldl (treap_apply gk) t ops)" for t :: "('p, 'v) node"
    by (induction ops arbitrary: t) (simp_all add: treap_apply_heap)
  then show ?thesis
    unfolding treap_run_def
    by (simp add: foldl_treap_apply_ordered foldl_treap_apply_size_inv ordered_keys_Null)
qed

lemma treap_merge_swap:
  fixes a :: "('p::linorder, 'v) node" and gk :: "'v \<Rightarrow> 'k::linorder"
  assumes "a \<noteq> Null" and "b \<noteq> Null" and "gk (get_value a) < gk (get_value b)"
  shows "treap_merge gk b a = treap_merge gk a b"
proof -
  obtain p1 l1 r1 s1 v1 where a: "a = Node p1 l1 r1 s1 v1"
    using assms(1) by (cases a) auto
  obtain p2 l2 r2 s2 v2 where b: "b = Node p2 l2 r2 s2 v2"
    using assms(2) by (cases b) auto
  have "key_ordered gk b a = (a, b)" "key_ordered gk a b = (a, b)"
    using assms(3) by (auto simp: key_ordered_def)
  then show ?thesis
    unfolding a b by (simp add: treap_merge_Node)
qed

lemma Treap_insert_inorder:
  fixes t :: "('p::linorder, 'k::linorder) node"
  assumes "ordered_keys (\<lambda>k. k) t" and "val \<notin> set (inorder t)"
  shows "inorder (Treap_insert t val prio)
           = inorder (fst (TreapNode_split t val)) @ [val] @ inorder (snd (TreapNode_split t val))"
proof -
  let ?L = "fst (TreapNode_split t val)" and ?R = "snd (TreapNode_split t val)"
  let ?n = "TreapNode_new val prio"
  have n: "inorder ?n = [val]" "?n \<noteq> Null" "get_value ?n = val"
    by (simp_all add: TreapNode_new_def)
  have nc: "\<not> Treap_contains t val"
    using assms(2) by (simp add: Treap_contains_def nodeOfKey_absent)
  have L: "\<forall>x \<in> set (inorder ?L). x < val"
    using ordered_keys_id_TreapNode_split(2)[OF assms(1)] .
  have app: "inorder ?L @ inorder ?R = inorder t"
    using ordered_keys_id_TreapNode_split(4)[OF assms(1)] .
  then have "set (inorder ?R) \<subseteq> set (inorder t)"
    by (metis Un_upper2 set_append)
  then have R: "\<forall>y \<in> set (inorder ?R). val < y"
    using ordered_keys_id_TreapNode_split(3)[OF assms(1), of val] assms(2)
    by (metis linorder_neqE subsetD)
  let ?m = "TreapNode_merge ?L ?n"
  have m: "inorder ?m = inorder ?L @ [val]"
    using L n(1) treap_merge_inorder[of ?L ?n "\<lambda>k. k"]
    by (simp add: treap_merge_eq_TreapNode_merge)
  have mR: "\<forall>x \<in> set (inorder ?m). \<forall>y \<in> set (inorder ?R). x < y"
    using m L R by (auto intro: less_trans)
  have fwd: "inorder (TreapNode_merge ?m ?R) = inorder ?m @ inorder ?R"
    using mR treap_merge_inorder[of ?m ?R "\<lambda>k. k"]
    by (simp add: treap_merge_eq_TreapNode_merge)
  have "inorder (TreapNode_merge ?R ?m) = inorder ?m @ inorder ?R"
  proof (cases "?R = Null")
    case True
    then show ?thesis by simp
  next
    case False
    have mn: "?m \<noteq> Null"
      using m by (auto simp: inorder_Nil_iff[symmetric])
    have "get_value ?m \<in> set (inorder ?m)" "get_value ?R \<in> set (inorder ?R)"
      using mn False by (cases ?m, simp, simp, cases ?R, simp, simp)
    then have "get_value ?m < get_value ?R"
      using mR by blast
    then have "TreapNode_merge ?R ?m = TreapNode_merge ?m ?R"
      using treap_merge_swap[OF mn False, of "\<lambda>k. k"]
      by (simp add: treap_merge_eq_TreapNode_merge)
    then show ?thesis using fwd by simp
  qed
  then have big: "inorder (TreapNode_merge ?R ?m) = inorder ?L @ [val] @ inorder ?R"
    using m by simp
  show ?thesis
  proof (cases "t = Null")
    case True
    then show ?thesis
      using nc n(1) by (simp add: Treap_insert_def)
  next
    case False
    then show ?thesis
      using nc big by (simp add: Treap_insert_def Let_def)
  qed
qed

lemma Treap_insert_ordered:
  fixes t :: "('p::linorder, 'k::linorder) node"
  assumes "ordered_keys (\<lambda>k. k) t"
  shows "ordered_keys (\<lambda>k. k) (Treap_insert t val prio)"
proof (cases "val \<in> set (inorder t)")
  case True
  then have "Treap_contains t val"
    using nodeOfKey_present[OF assms True] by (simp add: Treap_contains_def)
  then show ?thesis
    using assms by (simp add: Treap_insert_def)
next
  case False
  let ?L = "fst (TreapNode_split t val)" and ?R = "snd (TreapNode_split t val)"
  have L: "\<forall>x \<in> set (inorder ?L). x < val"
    using ordered_keys_id_TreapNode_split(2)[OF assms] .
  have app: "inorder ?L @ inorder ?R = inorder t"
    using ordered_keys_id_TreapNode_split(4)[OF assms] .
  then have "set (inorder ?R) \<subseteq> set (inorder t)"
    by (metis Un_upper2 set_append)
  then have R: "\<forall>y \<in> set (inorder ?R). val < y"
    using ordered_keys_id_TreapNode_split(3)[OF assms, of val] False
    by (metis linorder_neqE subsetD)
  have "sorted_wrt (<) (inorder ?L @ inorder ?R)"
    using assms app by (simp add: ordered_keys_def)
  then have "sorted_wrt (<) (inorder ?L @ [val] @ inorder ?R)"
    using L R by (auto simp: sorted_wrt_append)
  then show ?thesis
    using Treap_insert_inorder[OF assms False, of prio] by (simp add: ordered_keys_def)
qed

lemma Treap_remove_ordered:
  fixes t :: "('p::linorder, int) node"
  assumes "ordered_keys (\<lambda>k. k) t"
  shows "ordered_keys (\<lambda>k. k) (snd (Treap_remove t val freed_size))"
proof -
  let ?id = "\<lambda>k :: int. k"
  let ?L = "fst (treap_split ?id False t val)" and ?B = "snd (treap_split ?id False t val)"
  let ?I = "fst (treap_split ?id False ?B (key_plus_one val))"
  let ?R = "snd (treap_split ?id False ?B (key_plus_one val))"
  have 1: "ordered_keys ?id ?L" "ordered_keys ?id ?B"
    "\<forall>x \<in> set (inorder ?L). \<forall>y \<in> set (inorder ?B). x < y"
    using treap_split_ordered[OF assms, of False val] by simp_all
  have 2: "ordered_keys ?id ?I" "ordered_keys ?id ?R"
    using treap_split_ordered[OF 1(2), of False "key_plus_one val"] by simp_all
  have "inorder ?I @ inorder ?R = inorder ?B"
    by (rule treap_split_inorder_append)
  then have "set (inorder ?R) \<subseteq> set (inorder ?B)"
    by (metis Un_upper2 set_append)
  then have "\<forall>x \<in> set (inorder ?L). \<forall>y \<in> set (inorder ?R). ?id x < ?id y"
    using 1(3) by auto
  then have "ordered_keys ?id (treap_merge ?id ?L ?R)"
    using 1(1) 2(2) by (intro treap_merge_ordered)
  then show ?thesis
    using 1 2
    by (auto simp add: Treap_remove_def root_node_tree_def Let_def ordered_keys_Null
        TreapNode_split_eq_treap_split treap_merge_eq_TreapNode_merge[symmetric]
        simp del: TreapNode_split.simps split: node.splits)
qed

lemma Treap_run_invariants:
  fixes ops :: "('p::linorder) Treap_op list"
  shows "ordered_keys (\<lambda>k. k) (Treap_run ops) \<and> size_inv (Treap_run ops)"
proof -
  have "ordered_keys (\<lambda>k. k) t \<Longrightarrow> ordered_keys (\<lambda>k. k) (foldl Treap_apply t ops)"
    for t :: "('p, int) node"
  proof (induction ops arbitrary: t)
    case Nil
    then show ?case by simp
  next
    case (Cons operation ops)
    have "ordered_keys (\<lambda>k. k) (Treap_apply t operation)"
      using Cons.prems
      by (cases operation) (simp_all add: Treap_insert_ordered Treap_remove_ordered)
    then show ?case using Cons.IH by simp
  qed
  then show ?thesis
    unfolding Treap_run_def by (simp add: ordered_keys_Null foldl_Treap_apply_size_inv)
qed

subsection \<open>Order statistics of treap.h\<close>

lemma filter_less_all:
  "\<forall>x \<in> set xs. x < (k :: 'k :: linorder) \<Longrightarrow> filter (\<lambda>x. x < k) xs = xs"
  by (induction xs) auto

lemma filter_less_none:
  "\<forall>x \<in> set xs. (k :: 'k :: linorder) < x \<Longrightarrow> filter (\<lambda>x. x < k) xs = []"
  by (induction xs) auto

lemma sorted_nth_rank:
  fixes xs :: "('k :: linorder) list"
  shows "sorted_wrt (<) xs \<Longrightarrow> k \<in> set xs \<Longrightarrow>
         length (filter (\<lambda>x. x < k) xs) < length xs \<and> xs ! length (filter (\<lambda>x. x < k) xs) = k"
proof (induction xs)
  case Nil
  then show ?case by simp
next
  case (Cons a xs)
  show ?case
  proof (cases "a = k")
    case True
    then have "filter (\<lambda>x. x < k) xs = []"
      using Cons.prems(1) by (simp add: filter_less_none)
    then show ?thesis using True by simp
  next
    case False
    then have "k \<in> set xs" using Cons.prems(2) by simp
    moreover have "a < k" using Cons.prems(1) calculation by auto
    ultimately show ?thesis using Cons by simp
  qed
qed

lemma orderOfKey_from_present:
  fixes t :: "('p, 'k::linorder) node"
  shows "ordered_keys (\<lambda>k. k) t \<Longrightarrow> size_inv t \<Longrightarrow> key \<in> set (inorder t) \<Longrightarrow>
         orderOfKey_from key t = Inr (1 + length (filter (\<lambda>x. x < key) (inorder t)))"
proof (induction t)
  case Null
  then show ?case by simp
next
  case (Node p l r s k)
  have o: "ordered_keys (\<lambda>k. k) l" "ordered_keys (\<lambda>k. k) r"
    "\<forall>x \<in> set (inorder l). x < k" "\<forall>y \<in> set (inorder r). k < y"
    using Node.prems(1) by (simp_all add: ordered_keys_Node)
  have sz: "size_inv l" "size_inv r" "size_of l = length (inorder l)"
    using Node.prems(2) by (simp_all add: size_of_inorder)
  show ?case
  proof (cases "key = k")
    case True
    then show ?thesis
      using o sz by (simp add: filter_less_all filter_less_none)
  next
    case ne: False
    show ?thesis
    proof (cases "key < k")
      case True
      then have in_l: "key \<in> set (inorder l)"
        using Node.prems(3) ne o(4) by auto
      have "\<forall>y \<in> set (inorder r). key < y"
        using o(4) True by auto
      then have "filter (\<lambda>x. x < key) (inorder r) = []"
        by (rule filter_less_none)
      then show ?thesis
        using Node.IH(1)[OF o(1) sz(1) in_l] ne True by simp
    next
      case False
      then have in_r: "key \<in> set (inorder r)"
        using Node.prems(3) ne o(3) by auto
      have "\<forall>x \<in> set (inorder l). x < key"
        using o(3) False ne by auto
      then have "filter (\<lambda>x. x < key) (inorder l) = inorder l"
        by (rule filter_less_all)
      then show ?thesis
        using Node.IH(2)[OF o(2) sz(2) in_r] ne False sz(3) by simp
    qed
  qed
qed

lemma orderOfKey_from_absent:
  fixes t :: "('p, 'k::linorder) node"
  shows "key \<notin> set (inorder t) \<Longrightarrow> orderOfKey_from key t = Inl ElementNotFound"
  by (induction t) auto

subsection \<open>Order statistics of treap.hpp\<close>

lemma filter_key_less_all:
  fixes gk :: "'v \<Rightarrow> 'k::linorder"
  shows "\<forall>x \<in> set xs. gk x < k \<Longrightarrow> filter (\<lambda>x. gk x < k) xs = xs"
  by (induction xs) auto

lemma filter_key_less_none:
  fixes gk :: "'v \<Rightarrow> 'k::linorder"
  shows "\<forall>x \<in> set xs. \<not> gk x < k \<Longrightarrow> filter (\<lambda>x. gk x < k) xs = []"
  by (induction xs) auto

lemma key_rank:
  fixes gk :: "'v \<Rightarrow> 'k::linorder"
  shows "sorted_wrt (\<lambda>x y. gk x < gk y) xs \<Longrightarrow> k \<in> gk ` set xs \<Longrightarrow>
         length (filter (\<lambda>x. gk x < k) xs) < length xs
         \<and> gk (xs ! length (filter (\<lambda>x. gk x < k) xs)) = k"
proof (induction xs)
  case Nil
  then show ?case by simp
next
  case (Cons a xs)
  show ?case
  proof (cases "gk a = k")
    case True
    then have "\<forall>x \<in> set xs. \<not> gk x < k"
      using Cons.prems(1) by auto
    then have "filter (\<lambda>x. gk x < k) xs = []"
      by (rule filter_key_less_none)
    then show ?thesis using True by simp
  next
    case False
    then have in_xs: "k \<in> gk ` set xs" using Cons.prems(2) by auto
    then have "gk a < k" using Cons.prems(1) by auto
    then show ?thesis using Cons in_xs by simp
  qed
qed

lemma node_of_key_rank:
  fixes t :: "('p, 'v) node" and gk :: "'v \<Rightarrow> 'k::linorder"
  shows "ordered_keys gk t \<Longrightarrow> k \<in> gk ` set (inorder t) \<Longrightarrow>
         node_of_key gk t k = inorder_nodes t ! length (filter (\<lambda>x. gk x < k) (inorder t))"
proof (induction t)
  case Null
  then show ?case by simp
next
  case (Node p l r s x)
  let ?f = "\<lambda>y. gk y < k"
  have o: "ordered_keys gk l" "ordered_keys gk r"
    "\<forall>y \<in> set (inorder l). gk y < gk x" "\<forall>y \<in> set (inorder r). gk x < gk y"
    using Node.prems(1) by (simp_all add: ordered_keys_Node)
  have len: "length (inorder_nodes l) = length (inorder l)"
    by (rule length_inorder_nodes)
  consider (lt) "k < gk x" | (gt) "gk x < k" | (eq) "k = gk x"
    by (metis linorder_neqE)
  then show ?case
  proof cases
    case lt
    then have in_l: "k \<in> gk ` set (inorder l)"
      using Node.prems(2) o(4) by auto
    have "\<forall>y \<in> set (inorder r). \<not> gk y < k"
      using o(4) lt by auto
    then have fr: "filter ?f (inorder r) = []"
      by (rule filter_key_less_none)
    have "length (filter ?f (inorder l)) < length (inorder l)"
      using key_rank[of gk "inorder l" k] o(1) in_l by (simp add: ordered_keys_sorted_wrt)
    moreover have "\<not> gk x < k"
      using lt by simp
    ultimately show ?thesis
      using Node.IH(1)[OF o(1) in_l] lt fr len by (simp add: nth_append)
  next
    case gt
    then have in_r: "k \<in> gk ` set (inorder r)"
      using Node.prems(2) o(3) by auto
    have "\<forall>y \<in> set (inorder l). gk y < k"
      using o(3) gt by auto
    then have "filter ?f (inorder l) = inorder l"
      by (rule filter_key_less_all)
    moreover have "\<not> k < gk x"
      using gt by simp
    ultimately show ?thesis
      using Node.IH(2)[OF o(2) in_r] gt len by (simp add: nth_append)
  next
    case eq
    have "\<forall>y \<in> set (inorder l). gk y < k"
      using o(3) eq by auto
    then have fl: "filter ?f (inorder l) = inorder l"
      by (rule filter_key_less_all)
    have "\<forall>y \<in> set (inorder r). \<not> gk y < k"
      using o(4) eq by auto
    then have fr: "filter ?f (inorder r) = []"
      by (rule filter_key_less_none)
    show ?thesis
      using eq fl fr len by (simp add: nth_append)
  qed
qed

lemma node_of_key_absent:
  fixes t :: "('p, 'v) node" and gk :: "'v \<Rightarrow> 'k::linorder"
  shows "k \<notin> gk ` set (inorder t) \<Longrightarrow> node_of_key gk t k = Null"
  by (induction t) auto

lemma key_of_order_rank:
  fixes t :: "('p, 'v) node" and gk :: "'v \<Rightarrow> 'k::linorder"
  assumes "ordered_keys gk t" and "size_inv t" and "k \<in> gk ` set (inorder t)"
  shows "length (filter (\<lambda>x. gk x < k) (inorder t)) < size_of t
         \<and> key_of_order gk t (length (filter (\<lambda>x. gk x < k) (inorder t))) = Inr k"
proof -
  let ?i = "length (filter (\<lambda>x. gk x < k) (inorder t))"
  have r: "?i < length (inorder t)" "gk (inorder t ! ?i) = k"
    using key_rank[of gk "inorder t" k] assms(1,3) by (simp_all add: ordered_keys_sorted_wrt)
  have lt: "?i < size_of t"
    using r(1) size_of_inorder[OF assms(2)] by simp
  then have n: "node_of_order t ?i = Inr (inorder_nodes t ! ?i)"
    using assms(2) by (simp add: node_of_order_eq)
  have nn: "inorder_nodes t ! ?i \<noteq> Null"
    using r(1) by (simp add: inorder_nodes_nth_not_Null length_inorder_nodes)
  have "get_value (inorder_nodes t ! ?i) = inorder t ! ?i"
    using r(1) nth_map[of ?i "inorder_nodes t" get_value]
    by (simp add: map_get_value_inorder_nodes length_inorder_nodes)
  then have "key_of_order gk t ?i = Inr k"
    using n nn r(2) lt by (cases "inorder_nodes t ! ?i") (simp_all add: key_of_order_def)
  then show ?thesis using lt by simp
qed

lemma order_of_key_present:
  fixes u :: "('p, 'v) node" and gk :: "'v \<Rightarrow> 'k::linorder"
  assumes "ordered_keys gk u" and "j \<in> gk ` set (inorder u)"
  shows "order_of_key gk u j = Inr (length (filter (\<lambda>x. gk x < j) (inorder u)))"
proof -
  let ?i = "length (filter (\<lambda>x. gk x < j) (inorder u))"
  have r: "?i < length (inorder u)" "gk (inorder u ! ?i) = j"
    using key_rank[of gk "inorder u" j] assms by (simp_all add: ordered_keys_sorted_wrt)
  have n: "node_of_key gk u j = inorder_nodes u ! ?i"
    using assms by (rule node_of_key_rank)
  have nn: "inorder_nodes u ! ?i \<noteq> Null"
    using r(1) by (simp add: inorder_nodes_nth_not_Null length_inorder_nodes)
  have "get_value (inorder_nodes u ! ?i) = inorder u ! ?i"
    using r(1) nth_map[of ?i "inorder_nodes u" get_value]
    by (simp add: map_get_value_inorder_nodes length_inorder_nodes)
  then have "gk (get_value (inorder_nodes u ! ?i)) = j"
    using r(2) by simp
  then show ?thesis
    using n nn by (cases "inorder_nodes u ! ?i") (simp_all add: order_of_key_def order_of_node_def)
qed

lemma order_of_key_absent:
  fixes u :: "('p, 'v) node" and gk :: "'v \<Rightarrow> 'k::linorder"
  shows "j \<notin> gk ` set (inorder u) \<Longrightarrow> order_of_key gk u j = Inr (size_of u)"
  by (simp add: order_of_key_def order_of_node_def node_of_key_absent)

text \<open>
  C7, as the code has it.  In an ordered tree that satisfies the size invariant, the order
  query of a key that is present returns its 0-based in-order rank (the number of keys
  below it, a valid index at which the sequence holds the key), and the key query of that
  rank returns the key: \<open>keyOfOrder(orderOfKey(k)) = k\<close> in the \<open>Treap\<close> of treap.h and
  \<open>key_of_order(order_of_key(j)) = j\<close> in the treap of treap.hpp.  For a key that is not
  present, \<open>orderOfKey\<close> of treap.h signals \<open>Element not found\<close>, while
  \<open>order_of_key\<close> of treap.hpp signals no error: it returns \<open>size()\<close>, the rank of
  \<open>end()\<close>, for which \<open>key_of_order\<close> is out of range.
\<close>

theorem keyOfOrder_orderOfKey:
  fixes t :: "('p, 'k::linorder) node" and u :: "('q, 'v) node" and gk :: "'v \<Rightarrow> 'j::linorder"
  assumes "ordered_keys (\<lambda>k. k) t" and "size_inv t" and "ordered_keys gk u" and "size_inv u"
  shows "(if k \<in> set (inorder t)
          then \<exists>i. orderOfKey t k = Inr i \<and> i = length (filter (\<lambda>x. x < k) (inorder t))
                   \<and> i < size_of t \<and> inorder t ! i = k \<and> keyOfOrder t i = Inr k
          else orderOfKey t k = Inl ElementNotFound)
         \<and> (if j \<in> gk ` set (inorder u)
             then \<exists>i. order_of_key gk u j = Inr i
                      \<and> i = length (filter (\<lambda>x. gk x < j) (inorder u))
                      \<and> i < size_of u \<and> gk (inorder u ! i) = j \<and> key_of_order gk u i = Inr j
             else order_of_key gk u j = Inr (size_of u)
                  \<and> key_of_order gk u (size_of u) = Inl OutOfRange)"
proof -
  have first: "(if k \<in> set (inorder t)
          then \<exists>i. orderOfKey t k = Inr i \<and> i = length (filter (\<lambda>x. x < k) (inorder t))
                   \<and> i < size_of t \<and> inorder t ! i = k \<and> keyOfOrder t i = Inr k
          else orderOfKey t k = Inl ElementNotFound)"
  proof (cases "k \<in> set (inorder t)")
    case True
    let ?i = "length (filter (\<lambda>x. x < k) (inorder t))"
    have r: "?i < length (inorder t)" "inorder t ! ?i = k"
      using sorted_nth_rank[of "inorder t" k] assms(1) True by (simp_all add: ordered_keys_def)
    have a: "orderOfKey t k = Inr ?i"
      using orderOfKey_from_present[OF assms(1,2) True] by (simp add: orderOfKey_def)
    have lt: "?i < size_of t"
      using r(1) size_of_inorder[OF assms(2)] by simp
    then have n: "nodeOfOrder t ?i = Inr (inorder_nodes t ! ?i)"
      using assms(2) by (simp add: nodeOfOrder_eq_node_of_order node_of_order_eq)
    have nn: "inorder_nodes t ! ?i \<noteq> Null"
      using r(1) by (simp add: inorder_nodes_nth_not_Null length_inorder_nodes)
    have "get_value (inorder_nodes t ! ?i) = inorder t ! ?i"
      using r(1) nth_map[of ?i "inorder_nodes t" get_value]
      by (simp add: map_get_value_inorder_nodes length_inorder_nodes)
    then have "keyOfOrder t ?i = Inr k"
      using n nn r(2) by (cases "inorder_nodes t ! ?i") (simp_all add: keyOfOrder_def)
    then show ?thesis
      using True a lt r(2) by simp
  next
    case False
    then show ?thesis
      using orderOfKey_from_absent[of k t] by (simp add: orderOfKey_def)
  qed
  have second: "(if j \<in> gk ` set (inorder u)
             then \<exists>i. order_of_key gk u j = Inr i
                      \<and> i = length (filter (\<lambda>x. gk x < j) (inorder u))
                      \<and> i < size_of u \<and> gk (inorder u ! i) = j \<and> key_of_order gk u i = Inr j
             else order_of_key gk u j = Inr (size_of u)
                  \<and> key_of_order gk u (size_of u) = Inl OutOfRange)"
  proof (cases "j \<in> gk ` set (inorder u)")
    case True
    have "gk (inorder u ! length (filter (\<lambda>x. gk x < j) (inorder u))) = j"
      using key_rank[of gk "inorder u" j] assms(3) True by (simp add: ordered_keys_sorted_wrt)
    then show ?thesis
      using True order_of_key_present[OF assms(3) True] key_of_order_rank[OF assms(3,4) True]
      by simp
  next
    case False
    then show ?thesis
      using order_of_key_absent[OF False] by (simp add: key_of_order_def)
  qed
  show ?thesis
    using first second by (rule conjI)
qed

theorem keyOfOrder_orderOfKey_witness:
  "ordered_keys (\<lambda>k. k) (Node (20 :: 32 word) (Node 7 Null Null 1 (1 :: int)) (Node 5 Null Null 1 8) 3 3)
   \<and> size_inv (Node (20 :: 32 word) (Node 7 Null Null 1 (1 :: int)) (Node 5 Null Null 1 8) 3 3)
   \<and> ordered_keys fst (Node (20 :: 64 word) (Node 7 Null Null 1 (1 :: int, ''a'')) Null 2 (3, ''b''))
   \<and> size_inv (Node (20 :: 64 word) (Node 7 Null Null 1 (1 :: int, ''a'')) Null 2 (3, ''b''))
   \<and> orderOfKey (Node (20 :: 32 word) (Node 7 Null Null 1 (1 :: int)) (Node 5 Null Null 1 8) 3 3) 8
       = Inr 2
   \<and> keyOfOrder (Node (20 :: 32 word) (Node 7 Null Null 1 (1 :: int)) (Node 5 Null Null 1 8) 3 3) 2
       = Inr 8
   \<and> orderOfKey (Node (20 :: 32 word) (Node 7 Null Null 1 (1 :: int)) (Node 5 Null Null 1 8) 3 3) 4
       = Inl ElementNotFound
   \<and> order_of_key fst (Node (20 :: 64 word) (Node 7 Null Null 1 (1 :: int, ''a'')) Null 2 (3, ''b'')) 3
       = Inr 1
   \<and> key_of_order fst (Node (20 :: 64 word) (Node 7 Null Null 1 (1 :: int, ''a'')) Null 2 (3, ''b'')) 1
       = Inr 3
   \<and> order_of_key fst (Node (20 :: 64 word) (Node 7 Null Null 1 (1 :: int, ''a'')) Null 2 (3, ''b'')) 2
       = Inr 2"
proof -
  let ?t = "Node (20 :: 32 word) (Node 7 Null Null 1 (1 :: int)) (Node 5 Null Null 1 8) 3 3"
  let ?u = "Node (20 :: 64 word) (Node 7 Null Null 1 (1 :: int, ''a'')) Null 2 (3, ''b'')"
  have h: "ordered_keys (\<lambda>k. k) ?t" "size_inv ?t" "ordered_keys fst ?u" "size_inv ?u"
    by (simp_all add: ordered_keys_def)
  show ?thesis
    using h keyOfOrder_orderOfKey[OF h, of 8 3] keyOfOrder_orderOfKey[OF h, of 4 2]
    by (simp add: numeral_2_eq_2)
qed

text \<open>The claim as stated fails on treap.hpp: the key 2 is not in the tree with the keys
  1 and 3, and \<open>order_of_key\<close> returns the value \<open>size() = 2\<close> for it, not an error.\<close>

theorem order_of_key_absent_counterexample:
  "(2 :: int) \<notin> (\<lambda>k. k) ` set (inorder (Node (20 :: 64 word) (Node 7 Null Null 1 (1 :: int)) Null 2 3))
   \<and> order_of_key (\<lambda>k. k) (Node (20 :: 64 word) (Node 7 Null Null 1 (1 :: int)) Null 2 3) 2
       = Inr 2
   \<and> order_of_key (\<lambda>k. k) (Node (20 :: 64 word) (Node 7 Null Null 1 (1 :: int)) Null 2 3) 2
       \<noteq> Inl ElementNotFound"
  by (simp add: order_of_key_def order_of_node_def)

subsection \<open>Copying a \<open>Treap\<close>\<close>

lemma TreapNode_copy_Node:
  "size_inv t \<Longrightarrow> t \<noteq> Null \<Longrightarrow> TreapNode_copy t = Inr t"
proof (induction t)
  case Null
  then show ?case by simp
next
  case (Node p l r s k)
  then show ?case
    by (cases l; cases r) (simp_all add: TreapNode_new_def)
qed

lemma emplace_back_inorder:
  assumes "size_inv t"
  shows "inorder (emplace_back t prio v) = inorder t @ [v]" and "size_inv (emplace_back t prio v)"
  using assms size_of_inorder[OF assms]
  by (simp_all add: emplace_back_def implicit_emplace_inorder implicit_emplace_size_inv)

lemma implicit_copy_loop_inorder:
  fixes other :: "('q, 'v) node" and this :: "('p::linorder, 'v) node"
  shows "size_inv other \<Longrightarrow> size_inv this \<Longrightarrow> index \<le> size_of other \<Longrightarrow>
         \<exists>t. implicit_copy_loop prio other index this = Inr t \<and> size_inv t
             \<and> inorder t = inorder this @ drop index (inorder other)"
proof (induction prio other index this rule: implicit_copy_loop.induct)
  case (1 prio other index this)
  show ?case
  proof (cases "index = size_of other")
    case True
    then have "node_of_order other index = Inr Null"
      by (simp add: node_of_order_def)
    then show ?thesis
      using True "1.prems" size_of_inorder[OF "1.prems"(1)]
      by (subst implicit_copy_loop.simps) simp
  next
    case False
    then have lt: "index < size_of other"
      using "1.prems"(3) by simp
    then have len: "index < length (inorder other)"
      using size_of_inorder[OF "1.prems"(1)] by simp
    let ?n = "inorder_nodes other ! index"
    have n: "node_of_order other index = Inr ?n"
      using lt "1.prems"(1) by (simp add: node_of_order_eq)
    have nn: "?n \<noteq> Null"
      using len by (simp add: inorder_nodes_nth_not_Null length_inorder_nodes)
    then obtain p l r s v where node: "?n = Node p l r s v"
      by (cases ?n) auto
    have "get_value ?n = inorder other ! index"
      using len nth_map[of index "inorder_nodes other" get_value]
      by (simp add: map_get_value_inorder_nodes length_inorder_nodes)
    then have v: "v = inorder other ! index"
      using node by simp
    let ?acc = "emplace_back this (prio index) v"
    have "\<exists>t. implicit_copy_loop prio other (index + 1) ?acc = Inr t \<and> size_inv t
             \<and> inorder t = inorder ?acc @ drop (index + 1) (inorder other)"
      using "1.IH"[OF n node] "1.prems"(1) emplace_back_inorder(2)[OF "1.prems"(2)] lt
      by simp
    then obtain t where t: "implicit_copy_loop prio other (index + 1) ?acc = Inr t"
      "size_inv t" "inorder t = inorder ?acc @ drop (index + 1) (inorder other)"
      by blast
    have "inorder t = inorder this @ drop index (inorder other)"
      using t(3) emplace_back_inorder(1)[OF "1.prems"(2)] v len
      by (simp add: Cons_nth_drop_Suc)
    moreover have "implicit_copy_loop prio other index this = Inr t"
      using n node t(1) by (subst implicit_copy_loop.simps) simp
    ultimately show ?thesis
      using t(2) by simp
  qed
qed

lemma implicit_copy_inorder:
  fixes other :: "('q, 'v) node"
  assumes "size_inv other"
  shows "\<exists>t :: ('p::linorder, 'v) node.
           implicit_copy prio other = Inr t \<and> size_inv t \<and> inorder t = inorder other"
  using implicit_copy_loop_inorder[OF assms, of Null 0 prio]
  by (simp add: implicit_copy_def)

lemma implicit_copy_empty: "implicit_copy prio Null = Inr Null"
  by (simp add: implicit_copy_def node_of_order_def)

text \<open>
  C9 on the code.  The copy constructor of \<open>Treap\<close> (treap.h) calls \<open>copy\<close> on the root
  of the source without testing it: for the empty container the root is the null pointer
  and the call dereferences it.  Copy assignment from an empty container goes through the
  copy constructor and does the same.  The copy constructor of the implicit treap, which
  inserts the elements of the source one by one, gives the empty container there.
\<close>

theorem Treap_copy_empty:
  "Treap_copy (Null :: ('p, 'k) node) = Inl NullDereference
   \<and> Treap_copy_assign False this (Null :: ('p, 'k) node) = Inl NullDereference
   \<and> implicit_copy prio (Null :: ('q, 'v) node) = Inr (Null :: ('r::linorder, 'v) node)"
  by (simp add: Treap_copy_def Treap_copy_assign_def implicit_copy_def node_of_order_def)

end
